theory Spec2Isabelle
  imports
    Main
    "HOL-Library.AList"
    "HOL-Library.Char_ord"
    "HOL-Library.List_Lexorder"
    "HOL-Library.Sublist"
begin

section \<open>The filesystem\<close>

text \<open>
  \<^verbatim>\<open>sync_folders.py\<close> works on one filesystem through absolute paths: the source
  and the replica are two paths into the same tree, and nothing in the script keeps one
  from lying inside the other. The model therefore has a single tree and addresses both
  folders by path.

  A path is the list of its components (\<^verbatim>\<open>os.path.join(p, name)\<close> is \<open>p @ [name]\<close>;
  the names \<^verbatim>\<open>os.listdir\<close> returns hold no separator, so \<^verbatim>\<open>os.path.basename(name)\<close>
  is \<open>name\<close>). A regular file carries its bytes and its modification time, the two
  things \<^verbatim>\<open>filecmp\<close> and \<^verbatim>\<open>shutil.copy2\<close> read and write; its size is the length
  of its content. A directory is the association list of its entries. The log file is
  a file of this tree as well, at the path given with \<^verbatim>\<open>--log_file\<close>. Symbolic
  links, permissions and special files are not modelled.
\<close>

type_synonym name = string
type_synonym path = "name list"

datatype node =
    File (content: string) (mtime: nat)
  | Dir (entries: "(name \<times> node) list")

primrec fs_get :: "path \<Rightarrow> node \<Rightarrow> node option" where
  "fs_get [] n = Some n"
| "fs_get (x # p) n =
     (case n of
        File c m \<Rightarrow> None
      | Dir es \<Rightarrow> (case map_of es x of None \<Rightarrow> None | Some c \<Rightarrow> fs_get p c))"

text \<open>
  \<open>fs_put p v\<close> stores \<open>v\<close> at \<open>p\<close>, creating the missing directories above \<open>p\<close>
  (as \<^verbatim>\<open>os.makedirs\<close> does); it fails when a regular file is in the way.
  \<open>fs_del p\<close> removes the entry at \<open>p\<close> with everything below it; it fails when there
  is no such entry.
\<close>

primrec fs_put :: "path \<Rightarrow> node \<Rightarrow> node \<Rightarrow> node option" where
  "fs_put [] v n = Some v"
| "fs_put (x # p) v n =
     (case n of
        File c m \<Rightarrow> None
      | Dir es \<Rightarrow>
          (case fs_put p v (case map_of es x of None \<Rightarrow> Dir [] | Some c \<Rightarrow> c) of
             None \<Rightarrow> None
           | Some c' \<Rightarrow> Some (Dir (AList.update x c' es))))"

primrec fs_del :: "path \<Rightarrow> node \<Rightarrow> node option" where
  "fs_del [] n = None"
| "fs_del (x # p) n =
     (case n of
        File c m \<Rightarrow> None
      | Dir es \<Rightarrow>
          (case map_of es x of
             None \<Rightarrow> None
           | Some c \<Rightarrow>
               if p = [] then Some (Dir (AList.delete x es))
               else (case fs_del p c of
                       None \<Rightarrow> None
                     | Some c' \<Rightarrow> Some (Dir (AList.update x c' es)))))"

definition is_dir :: "node option \<Rightarrow> bool" where
  "is_dir v = (case v of Some (Dir es) \<Rightarrow> True | _ \<Rightarrow> False)"

definition is_file :: "node option \<Rightarrow> bool" where
  "is_file v = (case v of Some (File c m) \<Rightarrow> True | _ \<Rightarrow> False)"

section \<open>The library calls the script makes\<close>

datatype error =
    FileNotFoundError
  | NotADirectoryError
  | IsADirectoryError
  | FileExistsError
  | SameFileError
  | ShutilError

text \<open>\<^verbatim>\<open>os.listdir(path)\<close>, \<^verbatim>\<open>os.path.isdir(path)\<close>.\<close>

definition os_listdir :: "path \<Rightarrow> node \<Rightarrow> error + name list" where
  "os_listdir p root =
     (case fs_get p root of
        None \<Rightarrow> Inl FileNotFoundError
      | Some (File c m) \<Rightarrow> Inl NotADirectoryError
      | Some (Dir es) \<Rightarrow> Inr (map fst es))"

definition os_path_isdir :: "path \<Rightarrow> node \<Rightarrow> bool" where
  "os_path_isdir p root = is_dir (fs_get p root)"

text \<open>\<^verbatim>\<open>os.remove(path)\<close> unlinks a file; \<^verbatim>\<open>shutil.rmtree(path)\<close> removes a directory
  with its whole subtree.\<close>

definition os_remove :: "path \<Rightarrow> node \<Rightarrow> error + node" where
  "os_remove p root =
     (case fs_get p root of
        None \<Rightarrow> Inl FileNotFoundError
      | Some (Dir es) \<Rightarrow> Inl IsADirectoryError
      | Some (File c m) \<Rightarrow>
          (case fs_del p root of None \<Rightarrow> Inl FileNotFoundError | Some root' \<Rightarrow> Inr root'))"

definition shutil_rmtree :: "path \<Rightarrow> node \<Rightarrow> error + node" where
  "shutil_rmtree p root =
     (case fs_get p root of
        None \<Rightarrow> Inl FileNotFoundError
      | Some (File c m) \<Rightarrow> Inl NotADirectoryError
      | Some (Dir es) \<Rightarrow>
          (case fs_del p root of None \<Rightarrow> Inl FileNotFoundError | Some root' \<Rightarrow> Inr root'))"

text \<open>
  \<^verbatim>\<open>shutil.copy2(src, dst)\<close>: when \<open>dst\<close> is a directory the file goes to
  \<^verbatim>\<open>dst/basename(src)\<close>. \<^verbatim>\<open>copyfile\<close> refuses to copy a file onto itself, opens
  the source for reading and the target for writing (which creates or truncates it, and
  needs the directory above it to exist), then \<^verbatim>\<open>copystat\<close> gives the target the
  source's modification time.
\<close>

definition basename :: "path \<Rightarrow> path" where
  "basename p = (if p = [] then [] else [last p])"

definition shutil_copy2 :: "path \<Rightarrow> path \<Rightarrow> node \<Rightarrow> error + node" where
  "shutil_copy2 src dst root =
     (let dst' = (if os_path_isdir dst root then dst @ basename src else dst) in
      if src = dst' \<and> fs_get src root \<noteq> None then Inl SameFileError
      else
        (case fs_get src root of
           None \<Rightarrow> Inl FileNotFoundError
         | Some (Dir es) \<Rightarrow> Inl IsADirectoryError
         | Some (File c m) \<Rightarrow>
             if is_dir (fs_get dst' root) then Inl IsADirectoryError
             else if dst' = [] \<or> \<not> is_dir (fs_get (butlast dst') root)
               then Inl FileNotFoundError
             else (case fs_put dst' (File c m) root of
                     None \<Rightarrow> Inl FileNotFoundError
                   | Some root' \<Rightarrow> Inr root')))"

text \<open>
  \<^verbatim>\<open>shutil.copytree(src, dst)\<close> with its defaults: \<open>src\<close> is scanned, \<open>dst\<close> is made
  with \<^verbatim>\<open>os.makedirs\<close> (it must not exist yet; missing directories above it are
  created), and every entry scanned is copied below \<open>dst\<close>, files with \<^verbatim>\<open>copy2\<close>.
  The result is that \<open>dst\<close> holds a copy of the tree that was at \<open>src\<close>.

  One case is different: when \<open>dst\<close> lies two or more levels below \<open>src\<close>, inside a
  directory \<^verbatim>\<open>src/x\<close> that exists, the copy of \<open>x\<close> meets the directories it has just
  made and descends into them without end, until the operating system refuses a path;
  \<^verbatim>\<open>copytree\<close> then raises \<^verbatim>\<open>shutil.Error\<close>. The model reports the error and does
  not describe the directories left behind by that aborted copy.
\<close>

definition copytree_descends_into_itself :: "path \<Rightarrow> path \<Rightarrow> node \<Rightarrow> bool" where
  "copytree_descends_into_itself src dst root =
     (prefix src dst \<and> Suc (length src) < length dst
        \<and> is_dir (fs_get (take (Suc (length src)) dst) root))"

definition shutil_copytree :: "path \<Rightarrow> path \<Rightarrow> node \<Rightarrow> error + node" where
  "shutil_copytree src dst root =
     (case fs_get src root of
        None \<Rightarrow> Inl FileNotFoundError
      | Some (File c m) \<Rightarrow> Inl NotADirectoryError
      | Some (Dir es) \<Rightarrow>
          if fs_get dst root \<noteq> None then Inl FileExistsError
          else if copytree_descends_into_itself src dst root then Inl ShutilError
          else (case fs_put dst (Dir es) root of
                  None \<Rightarrow> Inl NotADirectoryError
                | Some root' \<Rightarrow> Inr root'))"

text \<open>
  \<^verbatim>\<open>open(path, 'a')\<close>: the file is created, empty, when it is not there (the directory
  above it must be); a directory cannot be opened. \<open>now\<close> is the time the new file
  is stamped with. \<open>append_text\<close> is what \<^verbatim>\<open>write\<close> and \<^verbatim>\<open>close\<close> leave of a
  file opened this way: the text is added at its end and the file carries the time of
  the write.
\<close>

definition open_append :: "path \<Rightarrow> nat \<Rightarrow> node \<Rightarrow> error + node" where
  "open_append p now root =
     (case fs_get p root of
        Some (Dir es) \<Rightarrow> Inl IsADirectoryError
      | Some (File c m) \<Rightarrow> Inr root
      | None \<Rightarrow>
          (case fs_get (butlast p) root of
             Some (Dir es) \<Rightarrow>
               (case fs_put p (File [] now) root of
                  None \<Rightarrow> Inl FileNotFoundError
                | Some root' \<Rightarrow> Inr root')
           | Some (File c m) \<Rightarrow> Inl NotADirectoryError
           | None \<Rightarrow>
               if list_ex (\<lambda>q. is_file (fs_get q root)) (prefixes (butlast p))
               then Inl NotADirectoryError else Inl FileNotFoundError))"

definition append_text :: "path \<Rightarrow> string \<Rightarrow> nat \<Rightarrow> node \<Rightarrow> node" where
  "append_text p text now root =
     (case fs_get p root of
        Some (File c m) \<Rightarrow>
          (case fs_put p (File (c @ text) now) root of None \<Rightarrow> root | Some root' \<Rightarrow> root')
      | _ \<Rightarrow> root)"

subsection \<open>\<^verbatim>\<open>filecmp\<close>\<close>

text \<open>
  \<^verbatim>\<open>filecmp.cmp(f1, f2, shallow=True)\<close>. \<open>None\<close> stands for the \<^verbatim>\<open>OSError\<close> of a
  failed \<^verbatim>\<open>os.stat\<close>. Two regular files with the same signature (type, size,
  modification time) are taken to be equal without being read; with different sizes they
  differ; otherwise the module's cache of past outcomes is asked, under the key made of
  both paths and both signatures, and only when it holds nothing under that key are the
  contents compared and the outcome stored. A cache holding more than 100 outcomes is
  emptied before the new one is stored. The cache is a dictionary of the module, so it
  lives as long as the process: it is part of the state a run starts from.

  The signatures in a key belong to regular files, so the type is left out of them: a
  signature is the size with the modification time. The cache is an association list
  read with \<open>map_of\<close>; the number of its keys is the length of the dictionary.
\<close>

type_synonym stat_sig = "nat \<times> nat"
type_synonym cmp_cache = "((path \<times> path \<times> stat_sig \<times> stat_sig) \<times> bool) list"

definition cache_len :: "cmp_cache \<Rightarrow> nat" where
  "cache_len c = length (remdups (map fst c))"

definition filecmp_cmp :: "path \<Rightarrow> path \<Rightarrow> node \<Rightarrow> cmp_cache \<Rightarrow> (bool \<times> cmp_cache) option" where
  "filecmp_cmp f1 f2 root c =
     (case fs_get f1 root of
        None \<Rightarrow> None
      | Some n1 \<Rightarrow>
          (case fs_get f2 root of
             None \<Rightarrow> None
           | Some n2 \<Rightarrow>
               (case (n1, n2) of
                  (File c1 m1, File c2 m2) \<Rightarrow>
                    if length c1 = length c2 \<and> m1 = m2 then Some (True, c)
                    else if length c1 \<noteq> length c2 then Some (False, c)
                    else
                      (case map_of c (f1, f2, (length c1, m1), (length c2, m2)) of
                         Some outcome \<Rightarrow> Some (outcome, c)
                       | None \<Rightarrow>
                           Some (c1 = c2,
                                 AList.update (f1, f2, (length c1, m1), (length c2, m2)) (c1 = c2)
                                   (if cache_len c > 100 then [] else c)))
                | _ \<Rightarrow> Some (False, c))))"

text \<open>
  \<^verbatim>\<open>filecmp.cmpfiles(a, b, common)\<close> compares the names in turn and sorts them into
  (same, different, funny); a comparison that raises \<^verbatim>\<open>OSError\<close> makes the name
  funny. The cache goes from one comparison to the next.
\<close>

fun cmpfiles ::
  "path \<Rightarrow> path \<Rightarrow> name list \<Rightarrow> node \<Rightarrow> cmp_cache
     \<Rightarrow> (name list \<times> name list \<times> name list) \<times> cmp_cache" where
  "cmpfiles a b [] root c = (([], [], []), c)"
| "cmpfiles a b (x # xs) root c =
     (case filecmp_cmp (a @ [x]) (b @ [x]) root c of
        Some (True, c1) \<Rightarrow>
          (case cmpfiles a b xs root c1 of
             ((same, diff, funny), c2) \<Rightarrow> ((x # same, diff, funny), c2))
      | Some (False, c1) \<Rightarrow>
          (case cmpfiles a b xs root c1 of
             ((same, diff, funny), c2) \<Rightarrow> ((same, x # diff, funny), c2))
      | None \<Rightarrow>
          (case cmpfiles a b xs root c of
             ((same, diff, funny), c2) \<Rightarrow> ((same, diff, x # funny), c2)))"

text \<open>
  \<^verbatim>\<open>filecmp.dircmp(a, b)\<close> computes its attributes on first use, in phases.
  Phase 0 lists both directories, drops the hidden and ignored names and sorts;
  phase 1 splits the names into common, left-only and right-only;
  phase 2 splits the common names by file type;
  phase 3 compares the common files.
\<close>

definition DEFAULT_IGNORES :: "name list" where
  "DEFAULT_IGNORES =
     [''RCS'', ''CVS'', ''tags'', ''.git'', ''.hg'', ''.bzr'', ''_darcs'', ''__pycache__'']"

definition hide :: "name list" where
  "hide = [''.'', ''..'']"

definition filter_skip :: "name list \<Rightarrow> name list \<Rightarrow> name list" where
  "filter_skip flist skip = filter (\<lambda>x. x \<notin> set skip) flist"

definition phase0 :: "path \<Rightarrow> path \<Rightarrow> node \<Rightarrow> error + (name list \<times> name list)" where
  "phase0 left right root =
     (case os_listdir left root of
        Inl e \<Rightarrow> Inl e
      | Inr l \<Rightarrow>
          (case os_listdir right root of
             Inl e \<Rightarrow> Inl e
           | Inr r \<Rightarrow>
               Inr (sort (filter_skip l (hide @ DEFAULT_IGNORES)),
                    sort (filter_skip r (hide @ DEFAULT_IGNORES)))))"

record names1 =
  common :: "name list"
  left_only :: "name list"
  right_only :: "name list"

text \<open>The two dictionaries of phase 1 keep each name once, in the order of the sorted
  lists.\<close>

definition phase1 :: "name list \<Rightarrow> name list \<Rightarrow> names1" where
  "phase1 left_list right_list =
     (let a = remdups left_list; b = remdups right_list in
      \<lparr> common = filter (\<lambda>x. x \<in> set b) a,
        left_only = filter (\<lambda>x. x \<notin> set b) a,
        right_only = filter (\<lambda>x. x \<notin> set a) b \<rparr>)"

record names2 =
  common_dirs :: "name list"
  common_files :: "name list"
  common_funny :: "name list"

fun phase2 :: "path \<Rightarrow> path \<Rightarrow> name list \<Rightarrow> node \<Rightarrow> names2" where
  "phase2 left right [] root = \<lparr> common_dirs = [], common_files = [], common_funny = [] \<rparr>"
| "phase2 left right (x # xs) root =
     (let r = phase2 left right xs root;
          a_stat = fs_get (left @ [x]) root;
          b_stat = fs_get (right @ [x]) root in
      if a_stat \<noteq> None \<and> b_stat \<noteq> None then
        if is_dir a_stat \<noteq> is_dir b_stat then r\<lparr>common_funny := x # common_funny r\<rparr>
        else if is_dir a_stat then r\<lparr>common_dirs := x # common_dirs r\<rparr>
        else if is_file a_stat then r\<lparr>common_files := x # common_files r\<rparr>
        else r\<lparr>common_funny := x # common_funny r\<rparr>
      else r\<lparr>common_funny := x # common_funny r\<rparr>)"

definition phase3 ::
  "path \<Rightarrow> path \<Rightarrow> name list \<Rightarrow> node \<Rightarrow> cmp_cache
     \<Rightarrow> (name list \<times> name list \<times> name list) \<times> cmp_cache" where
  "phase3 left right files root c = cmpfiles left right files root c"

section \<open>The script\<close>

text \<open>
  The state a run works on: the filesystem; the time of the system clock; the cache of
  \<^verbatim>\<open>filecmp\<close>; the path \<^verbatim>\<open>self.log_file\<close>; the records written so far, each one
  a line appended to the log file and printed on the console, kept as the verb and the
  path that follows it; and the three counters of \<^verbatim>\<open>SyncObject\<close>.
\<close>

datatype verb = Created | Copied | Deleted

record sync_state =
  root :: node
  clock :: nat
  cache :: cmp_cache
  log_file :: path
  log_lines :: "(verb \<times> path) list"
  file_created_count :: nat
  file_copied_count :: nat
  file_deleted_count :: nat

text \<open>
  An exception ends the run where it is raised; the state reached so far stays as it is.
  \<open>OutOfFuel\<close> is not a result of the script: it marks a model run whose recursion
  budget was too small.
\<close>

datatype outcome = Done sync_state | Raised error sync_state | OutOfFuel

definition and_then :: "outcome \<Rightarrow> (sync_state \<Rightarrow> outcome) \<Rightarrow> outcome" where
  "and_then r f = (case r of Done st \<Rightarrow> f st | _ \<Rightarrow> r)"

text \<open>
  The text of a record: the verb, the path as \<^verbatim>\<open>os.path.join\<close> builds it from the
  absolute root, and a newline.
\<close>

definition path_str :: "path \<Rightarrow> string" where
  "path_str p = concat (map (\<lambda>n. CHR ''/'' # n) p)"

definition log_text :: "verb \<Rightarrow> path \<Rightarrow> string" where
  "log_text v file =
     (case v of Created \<Rightarrow> ''Created file: '' | Copied \<Rightarrow> ''Copied file: ''
      | Deleted \<Rightarrow> ''Deleted file: '') @ path_str file @ [CHR 0x0A]"

text \<open>
  \<^verbatim>\<open>write_log\<close> opens the log file, which may raise, writes and prints the record,
  and closes the file. The write stamps the file with the time of the clock, which
  moves on. With a type that is none of the three the file is opened and closed and
  nothing is written.
\<close>

definition log_write :: "verb \<Rightarrow> path \<Rightarrow> sync_state \<Rightarrow> sync_state" where
  "log_write v file st =
     st\<lparr>root := append_text (log_file st) (log_text v file) (clock st) (root st),
        clock := Suc (clock st),
        log_lines := log_lines st @ [(v, file)]\<rparr>"

definition write_log :: "string \<Rightarrow> path \<Rightarrow> sync_state \<Rightarrow> outcome" where
  "write_log type file st =
     (case open_append (log_file st) (clock st) (root st) of
        Inl e \<Rightarrow> Raised e st
      | Inr root1 \<Rightarrow>
          if type = ''create'' then Done (log_write Created file (st\<lparr>root := root1\<rparr>))
          else if type = ''copy'' then Done (log_write Copied file (st\<lparr>root := root1\<rparr>))
          else if type = ''delete'' then Done (log_write Deleted file (st\<lparr>root := root1\<rparr>))
          else Done (st\<lparr>root := root1\<rparr>))"

text \<open>The inner loops of \<^verbatim>\<open>copy_files\<close> and \<^verbatim>\<open>delete_files\<close> over
  \<^verbatim>\<open>os.listdir(srcpath)\<close>: one increment and one call of \<^verbatim>\<open>write_log\<close> per name
  listed.\<close>

fun log_created :: "path \<Rightarrow> name list \<Rightarrow> sync_state \<Rightarrow> outcome" where
  "log_created srcpath [] st = Done st"
| "log_created srcpath (file # files) st =
     (case write_log ''create'' (srcpath @ [file])
             (st\<lparr>file_created_count := file_created_count st + 1\<rparr>) of
        Done st1 \<Rightarrow> log_created srcpath files st1
      | r \<Rightarrow> r)"

fun log_copied :: "path \<Rightarrow> name list \<Rightarrow> sync_state \<Rightarrow> outcome" where
  "log_copied srcpath [] st = Done st"
| "log_copied srcpath (file # files) st =
     (case write_log ''copy'' (srcpath @ [file])
             (st\<lparr>file_copied_count := file_copied_count st + 1\<rparr>) of
        Done st1 \<Rightarrow> log_copied srcpath files st1
      | r \<Rightarrow> r)"

fun log_deleted :: "path \<Rightarrow> name list \<Rightarrow> sync_state \<Rightarrow> outcome" where
  "log_deleted srcpath [] st = Done st"
| "log_deleted srcpath (file # files) st =
     (case write_log ''delete'' (srcpath @ [file])
             (st\<lparr>file_deleted_count := file_deleted_count st + 1\<rparr>) of
        Done st1 \<Rightarrow> log_deleted srcpath files st1
      | r \<Rightarrow> r)"

fun copy_files :: "name list \<Rightarrow> path \<Rightarrow> path \<Rightarrow> bool \<Rightarrow> sync_state \<Rightarrow> outcome" where
  "copy_files [] src dest new st = Done st"
| "copy_files (file # file_list) src dest new st =
     (let srcpath = src @ [file] in
      if os_path_isdir srcpath (root st) then
        (case shutil_copytree srcpath (dest @ [file]) (root st) of
           Inl e \<Rightarrow> Raised e st
         | Inr root1 \<Rightarrow>
             (case os_listdir srcpath root1 of
                Inl e \<Rightarrow> Raised e (st\<lparr>root := root1\<rparr>)
              | Inr files \<Rightarrow>
                  (case (if new then log_created srcpath files (st\<lparr>root := root1\<rparr>)
                         else log_copied srcpath files (st\<lparr>root := root1\<rparr>)) of
                     Done st1 \<Rightarrow> copy_files file_list src dest new st1
                   | r \<Rightarrow> r)))
      else
        (case shutil_copy2 srcpath dest (root st) of
           Inl e \<Rightarrow> Raised e st
         | Inr root1 \<Rightarrow>
             (case (if new
                    then write_log ''create'' srcpath
                           (st\<lparr>root := root1, file_created_count := file_created_count st + 1\<rparr>)
                    else write_log ''copy'' srcpath
                           (st\<lparr>root := root1, file_copied_count := file_copied_count st + 1\<rparr>)) of
                Done st1 \<Rightarrow> copy_files file_list src dest new st1
              | r \<Rightarrow> r)))"

fun delete_files :: "name list \<Rightarrow> path \<Rightarrow> sync_state \<Rightarrow> outcome" where
  "delete_files [] folder st = Done st"
| "delete_files (file # file_list) folder st =
     (let srcpath = folder @ [file] in
      if os_path_isdir srcpath (root st) then
        (case os_listdir srcpath (root st) of
           Inl e \<Rightarrow> Raised e st
         | Inr files \<Rightarrow>
             (case log_deleted srcpath files st of
                Done st1 \<Rightarrow>
                  (case shutil_rmtree srcpath (root st1) of
                     Inl e \<Rightarrow> Raised e st1
                   | Inr root1 \<Rightarrow> delete_files file_list folder (st1\<lparr>root := root1\<rparr>))
              | r \<Rightarrow> r))
      else
        (case os_remove srcpath (root st) of
           Inl e \<Rightarrow> Raised e st
         | Inr root1 \<Rightarrow>
             (case write_log ''delete'' srcpath
                     (st\<lparr>root := root1, file_deleted_count := file_deleted_count st + 1\<rparr>) of
                Done st1 \<Rightarrow> delete_files file_list folder st1
              | r \<Rightarrow> r)))"

text \<open>
  \<^verbatim>\<open>compare_folders\<close>. The first use of \<^verbatim>\<open>compare_obj.common_dirs\<close> runs phases
  0 to 2 of \<^verbatim>\<open>dircmp\<close>, so both listings and the lists \<^verbatim>\<open>left_only\<close>,
  \<^verbatim>\<open>right_only\<close> and \<^verbatim>\<open>common_files\<close> belong to the state at entry;
  \<^verbatim>\<open>compare_obj.diff_files\<close> runs phase 3 when it is first read, after the recursive
  calls, the copies and the deletions. The first argument bounds the depth of the
  recursion.
\<close>

fun for_each :: "('a \<Rightarrow> sync_state \<Rightarrow> outcome) \<Rightarrow> 'a list \<Rightarrow> sync_state \<Rightarrow> outcome" where
  "for_each body [] st = Done st"
| "for_each body (x # xs) st =
     (case body x st of Done st' \<Rightarrow> for_each body xs st' | r \<Rightarrow> r)"

fun compare_folders :: "nat \<Rightarrow> path \<Rightarrow> path \<Rightarrow> sync_state \<Rightarrow> outcome" where
  "compare_folders 0 src repl st = OutOfFuel"
| "compare_folders (Suc depth) src repl st =
     (case phase0 src repl (root st) of
        Inl e \<Rightarrow> Raised e st
      | Inr (left_list, right_list) \<Rightarrow>
          (let p1 = phase1 left_list right_list;
               p2 = phase2 src repl (common p1) (root st) in
           and_then
             (if common_dirs p2 \<noteq> [] then
                for_each (\<lambda>folder. compare_folders depth (src @ [folder]) (repl @ [folder]))
                  (common_dirs p2) st
              else Done st)
             (\<lambda>st1.
           and_then
             (if left_only p1 \<noteq> [] then copy_files (left_only p1) src repl True st1
              else Done st1)
             (\<lambda>st2.
           and_then
             (if right_only p1 \<noteq> [] then delete_files (right_only p1) repl st2
              else Done st2)
             (\<lambda>st3.
                (case phase3 src repl (common_files p2) (root st3) (cache st3) of
                   ((same_files, diff_files, funny_files), cache3) \<Rightarrow>
                     if diff_files \<noteq> [] then
                       copy_files diff_files src repl False (st3\<lparr>cache := cache3\<rparr>)
                     else Done (st3\<lparr>cache := cache3\<rparr>)))))))"

text \<open>
  One round of the loop of \<^verbatim>\<open>compare_root\<close>: a run from the two roots, the summary
  it prints (the three counters), and the counters cleared for the next round.
\<close>

definition compare_root_round ::
  "nat \<Rightarrow> path \<Rightarrow> path \<Rightarrow> sync_state \<Rightarrow> ((nat \<times> nat \<times> nat) \<times> sync_state) option" where
  "compare_root_round depth src repl st =
     (case compare_folders depth src repl st of
        Done st' \<Rightarrow>
          Some ((file_created_count st', file_copied_count st', file_deleted_count st'),
                st'\<lparr>file_created_count := 0, file_copied_count := 0, file_deleted_count := 0\<rparr>)
      | _ \<Rightarrow> None)"

section \<open>Notions used in the statements\<close>

text \<open>The state in which an outcome leaves the run, whether it returned or raised.\<close>

fun final :: "outcome \<Rightarrow> sync_state option" where
  "final (Done st) = Some st"
| "final (Raised e st) = Some st"
| "final OutOfFuel = None"

text \<open>The number of regular files anywhere inside a node.\<close>

fun leaf_files :: "node \<Rightarrow> nat" where
  "leaf_files (File c m) = 1"
| "leaf_files (Dir es) = sum_list (map (\<lambda>e. leaf_files (snd e)) es)"

text \<open>
  The state of a \<^verbatim>\<open>SyncObject\<close> just made, in a process that has compared nothing yet:
  the counters at zero, no record written, the cache empty.
\<close>

definition fresh_state :: "node \<Rightarrow> path \<Rightarrow> nat \<Rightarrow> sync_state" where
  "fresh_state r lf t =
     \<lparr>root = r, clock = t, cache = [], log_file = lf, log_lines = [],
      file_created_count = 0, file_copied_count = 0, file_deleted_count = 0\<rparr>"

text \<open>The paths strictly inside \<open>p\<close>, and the entries of \<open>p\<close> with the given names.\<close>

definition below :: "path \<Rightarrow> path set" where
  "below p = {q. strict_prefix p q}"

definition children :: "path \<Rightarrow> name set \<Rightarrow> path set" where
  "children p ns = (\<lambda>m. p @ [m]) ` ns"

text \<open>
  \<open>effects P D st st'\<close>: the state \<open>st'\<close> comes from \<open>st\<close> by a sequence of the
  elementary effects the script has, namely storing a node at a path of \<open>P\<close>, removing
  the entry at a path of \<open>D\<close>, a call of \<^verbatim>\<open>write_log\<close> that returns, an increment
  of a counter, and a change of the cache of \<^verbatim>\<open>filecmp\<close>.
\<close>

inductive effects :: "path set \<Rightarrow> path set \<Rightarrow> sync_state \<Rightarrow> sync_state \<Rightarrow> bool"
  for P :: "path set" and D :: "path set" where
  effects_none: "effects P D st st"
| effects_put:
    "effects P D st st1 \<Longrightarrow> w \<in> P \<Longrightarrow> fs_put w v (root st1) = Some r
       \<Longrightarrow> effects P D st (st1\<lparr>root := r\<rparr>)"
| effects_del:
    "effects P D st st1 \<Longrightarrow> w \<in> D \<Longrightarrow> fs_del w (root st1) = Some r
       \<Longrightarrow> effects P D st (st1\<lparr>root := r\<rparr>)"
| effects_log:
    "effects P D st st1 \<Longrightarrow> write_log t f st1 = Done st2 \<Longrightarrow> effects P D st st2"
| effects_created:
    "effects P D st st1
       \<Longrightarrow> effects P D st (st1\<lparr>file_created_count := file_created_count st1 + 1\<rparr>)"
| effects_copied:
    "effects P D st st1
       \<Longrightarrow> effects P D st (st1\<lparr>file_copied_count := file_copied_count st1 + 1\<rparr>)"
| effects_deleted:
    "effects P D st st1
       \<Longrightarrow> effects P D st (st1\<lparr>file_deleted_count := file_deleted_count st1 + 1\<rparr>)"
| effects_cache:
    "effects P D st st1 \<Longrightarrow> effects P D st (st1\<lparr>cache := c\<rparr>)"

text \<open>The number of log lines with a given verb.\<close>

definition count_lines :: "verb \<Rightarrow> (verb \<times> path) list \<Rightarrow> nat" where
  "count_lines v ls = length (filter (\<lambda>l. fst l = v) ls)"

text \<open>
  The paths a call of \<^verbatim>\<open>compare_folders\<close> may store to and may remove, read off the
  classification of the directory pair at entry: the recursive calls work strictly inside
  the common subdirectories of the replica, the copies store the source-only names and
  the common files, the deletions remove the replica-only names.
\<close>

definition level_puts :: "path \<Rightarrow> path \<Rightarrow> node \<Rightarrow> path set" where
  "level_puts src repl r =
     (case phase0 src repl r of
        Inl e \<Rightarrow> {}
      | Inr (left_list, right_list) \<Rightarrow>
          (\<Union>m \<in> set (common_dirs (phase2 src repl (common (phase1 left_list right_list)) r)).
              below (repl @ [m]))
          \<union> children repl
              (set (left_only (phase1 left_list right_list))
               \<union> set (common_files (phase2 src repl (common (phase1 left_list right_list)) r))))"

definition level_dels :: "path \<Rightarrow> path \<Rightarrow> node \<Rightarrow> path set" where
  "level_dels src repl r =
     (case phase0 src repl r of
        Inl e \<Rightarrow> {}
      | Inr (left_list, right_list) \<Rightarrow>
          (\<Union>m \<in> set (common_dirs (phase2 src repl (common (phase1 left_list right_list)) r)).
              below (repl @ [m]))
          \<union> children repl (set (right_only (phase1 left_list right_list))))"

text \<open>The names \<^verbatim>\<open>dircmp\<close> leaves out of both listings.\<close>

definition skipped :: "name \<Rightarrow> bool" where
  "skipped n = (n \<in> set (hide @ DEFAULT_IGNORES))"

text \<open>Two directories neither of which lies inside the other (nor are they the same).\<close>

definition apart :: "path \<Rightarrow> path \<Rightarrow> bool" where
  "apart p q = (\<not> prefix p q \<and> \<not> prefix q p)"

section \<open>Example trees\<close>

definition nested_tree :: node where
  "nested_tree = Dir [(''e'', Dir [(''f1'', File ''1'' 1), (''f2'', File ''2'' 2)])]"

definition nested_root :: node where
  "nested_root =
     Dir [(''s'', Dir [(''d'', nested_tree)]), (''r'', Dir [(''old'', nested_tree)])]"

definition twin_root :: node where
  "twin_root = Dir [(''s'', Dir [(''a'', File ''X'' 1)]), (''r'', Dir [(''a'', File ''X'' 1)])]"

definition example_root :: node where
  "example_root =
     Dir [(''s'', Dir [(''a.txt'', File ''X'' 1), (''sub'', Dir [(''b.txt'', File ''Y'' 2)])]),
          (''r'', Dir [(''a.txt'', File ''old'' 0), (''stale.txt'', File ''Z'' 3)])]"

text \<open>
  \<open>tally pending st st'\<close>: from \<open>st\<close> to \<open>st'\<close> records were added to the log, and
  every counter rose by the number of its records among those added and those of
  \<open>pending\<close>. \<open>tallied st r\<close>: an outcome that returns has nothing pending, one that
  raises has at most one record pending.
\<close>

definition tally :: "(verb \<times> path) list \<Rightarrow> sync_state \<Rightarrow> sync_state \<Rightarrow> bool" where
  "tally pending st st' =
     (\<exists>new. log_lines st' = log_lines st @ new
        \<and> file_created_count st' = file_created_count st + count_lines Created (new @ pending)
        \<and> file_copied_count st' = file_copied_count st + count_lines Copied (new @ pending)
        \<and> file_deleted_count st' = file_deleted_count st + count_lines Deleted (new @ pending))"

definition tallied :: "sync_state \<Rightarrow> outcome \<Rightarrow> bool" where
  "tallied st r =
     (case r of
        Done s \<Rightarrow> tally [] st s
      | Raised e s \<Rightarrow> (\<exists>pending. length pending \<le> 1 \<and> tally pending st s)
      | OutOfFuel \<Rightarrow> True)"

text \<open>
  The example of the spec: one file to create, one to overwrite, one to delete; the log
  file lies beside the two folders.
\<close>

definition example_state :: sync_state where
  "example_state = fresh_state example_root [''log.txt''] 100"

definition example_final :: sync_state where
  "example_final =
     \<lparr>root = Dir [(''s'', Dir [(''a.txt'', File ''X'' 1), (''sub'', Dir [(''b.txt'', File ''Y'' 2)])]),
                 (''r'', Dir [(''a.txt'', File ''X'' 1), (''sub'', Dir [(''b.txt'', File ''Y'' 2)])]),
                 (''log.txt'',
                  File (log_text Created [''s'', ''sub'', ''b.txt'']
                        @ log_text Deleted [''r'', ''stale.txt'']
                        @ log_text Copied [''s'', ''a.txt'']) 102)],
      clock = 103, cache = [], log_file = [''log.txt''],
      log_lines = [(Created, [''s'', ''sub'', ''b.txt'']), (Deleted, [''r'', ''stale.txt'']),
                   (Copied, [''s'', ''a.txt''])],
      file_created_count = 1, file_copied_count = 1, file_deleted_count = 1\<rparr>"

definition mismatch_root :: node where
  "mismatch_root =
     Dir [(''s'', Dir [(''x'', Dir [(''f'', File ''1'' 1)]), (''new'', File ''N'' 5)]),
          (''r'', Dir [(''x'', File ''old'' 2)])]"

definition mismatch_state :: sync_state where
  "mismatch_state = fresh_state mismatch_root [''log.txt''] 100"

definition mismatch_final :: sync_state where
  "mismatch_final =
     \<lparr>root = Dir [(''s'', Dir [(''x'', Dir [(''f'', File ''1'' 1)]), (''new'', File ''N'' 5)]),
                 (''r'', Dir [(''x'', File ''old'' 2), (''new'', File ''N'' 5)]),
                 (''log.txt'', File (log_text Created [''s'', ''new'']) 100)],
      clock = 101, cache = [], log_file = [''log.txt''],
      log_lines = [(Created, [''s'', ''new''])],
      file_created_count = 1, file_copied_count = 0, file_deleted_count = 0\<rparr>"


definition inside_root :: node where
  "inside_root = Dir [(''s'', Dir [(''a.txt'', File ''X'' 1), (''r'', Dir [])])]"

definition inside_state :: sync_state where
  "inside_state = fresh_state inside_root [''log.txt''] 100"

definition inside_final :: sync_state where
  "inside_final =
     \<lparr>root = Dir [(''s'', Dir [(''a.txt'', File ''X'' 1),
                               (''r'', Dir [(''a.txt'', File ''X'' 1),
                                            (''r'', Dir [(''a.txt'', File ''X'' 1)])])]),
                 (''log.txt'',
                  File (log_text Created [''s'', ''a.txt''] @ log_text Created [''s'', ''r'', ''a.txt'']
                        @ log_text Created [''s'', ''r'', ''r'']) 102)],
      clock = 103, cache = [], log_file = [''log.txt''],
      log_lines = [(Created, [''s'', ''a.txt'']), (Created, [''s'', ''r'', ''a.txt'']),
                   (Created, [''s'', ''r'', ''r''])],
      file_created_count = 3, file_copied_count = 0, file_deleted_count = 0\<rparr>"

text \<open>The example of the spec with \<^verbatim>\<open>--log_file\<close> naming a file in the source folder.\<close>

definition example_logged_final :: sync_state where
  "example_logged_final =
     \<lparr>root = Dir [(''s'', Dir [(''a.txt'', File ''X'' 1), (''sub'', Dir [(''b.txt'', File ''Y'' 2)]),
                               (''log.txt'',
                                File (log_text Created [''s'', ''sub'', ''b.txt'']
                                      @ log_text Deleted [''r'', ''stale.txt'']
                                      @ log_text Copied [''s'', ''a.txt'']) 102)]),
                 (''r'', Dir [(''a.txt'', File ''X'' 1), (''sub'', Dir [(''b.txt'', File ''Y'' 2)])])],
      clock = 103, cache = [], log_file = [''s'', ''log.txt''],
      log_lines = [(Created, [''s'', ''sub'', ''b.txt'']), (Deleted, [''r'', ''stale.txt'']),
                   (Copied, [''s'', ''a.txt''])],
      file_created_count = 1, file_copied_count = 1, file_deleted_count = 1\<rparr>"









text \<open>
  What the mirror property compares at a path: whether there is an entry, the bytes of a
  file, the set of entry names of a directory. \<open>mirrors src repl rt\<close>: at the root and
  at every depth, the replica shows what the source shows.
\<close>

datatype shape = Absent | Regular string | Folder "name set"

definition shape :: "node option \<Rightarrow> shape" where
  "shape v = (case v of None \<Rightarrow> Absent | Some (File c m) \<Rightarrow> Regular c
              | Some (Dir es) \<Rightarrow> Folder (set (map fst es)))"

definition mirrors :: "path \<Rightarrow> path \<Rightarrow> node \<Rightarrow> bool" where
  "mirrors src repl rt = (\<forall>q. shape (fs_get (repl @ q) rt) = shape (fs_get (src @ q) rt))"

section \<open>Paths, stores and removals\<close>

lemma fs_get_append: "fs_get (p @ q) n = (case fs_get p n of None \<Rightarrow> None | Some c \<Rightarrow> fs_get q c)"
  by (induction p arbitrary: n) (auto split: node.splits option.splits)

lemma fs_get_File: "fs_get p (File c m) = (if p = [] then Some (File c m) else None)"
  by (cases p) auto

lemma fs_get_Dir_Nil: "fs_get p (Dir []) = (if p = [] then Some (Dir []) else None)"
  by (cases p) auto

lemma fs_put_frame:
  "fs_put w v n = Some n' \<Longrightarrow> \<not> prefix w p \<Longrightarrow> \<not> prefix p w \<Longrightarrow> fs_get p n' = fs_get p n"
proof (induction w arbitrary: p n n')
  case Nil
  then show ?case by simp
next
  case (Cons x w)
  from Cons.prems(3) obtain y p' where p: "p = y # p'" by (cases p) auto
  from Cons.prems(1) obtain es c' where n: "n = Dir es"
    and c': "fs_put w v (case map_of es x of None \<Rightarrow> Dir [] | Some c \<Rightarrow> c) = Some c'"
    and n': "n' = Dir (AList.update x c' es)"
    by (auto split: node.splits option.splits)
  show ?case
  proof (cases "x = y")
    case False
    then show ?thesis by (simp add: p n n' update_conv')
  next
    case True
    with Cons.prems p have inc: "\<not> prefix w p'" "\<not> prefix p' w" by auto
    from Cons.IH[OF c' inc]
    have "fs_get p' c' = fs_get p' (case map_of es x of None \<Rightarrow> Dir [] | Some c \<Rightarrow> c)" .
    moreover from inc have "p' \<noteq> []" by auto
    ultimately show ?thesis using True
      by (simp add: p n n' update_conv' fs_get_Dir_Nil split: option.splits)
  qed
qed

lemma fs_del_frame:
  "fs_del w n = Some n' \<Longrightarrow> \<not> prefix w p \<Longrightarrow> \<not> prefix p w \<Longrightarrow> fs_get p n' = fs_get p n"
proof (induction w arbitrary: p n n')
  case Nil
  then show ?case by simp
next
  case (Cons x w)
  from Cons.prems(3) obtain y p' where p: "p = y # p'" by (cases p) auto
  from Cons.prems(1) obtain es c where n: "n = Dir es" and c: "map_of es x = Some c"
    by (auto split: node.splits option.splits)
  show ?case
  proof (cases "x = y")
    case False
    with Cons.prems(1) show ?thesis
      by (auto simp: p n c update_conv' delete_conv' split: if_splits option.splits)
  next
    case True
    with Cons.prems p have inc: "\<not> prefix w p'" "\<not> prefix p' w" by auto
    then have "w \<noteq> []" by auto
    with Cons.prems(1) obtain c' where c': "fs_del w c = Some c'" and n': "n' = Dir (AList.update x c' es)"
      by (auto simp: n c split: option.splits)
    from Cons.IH[OF c' inc] show ?thesis using True c
      by (simp add: p n n' update_conv')
  qed
qed

lemma fs_put_get_below:
  "fs_put w v n = Some n' \<Longrightarrow> fs_get (w @ q) n' = fs_get q v"
proof (induction w arbitrary: n n')
  case Nil
  then show ?case by simp
next
  case (Cons x w)
  then show ?case
    by (auto simp: update_conv' split: node.splits option.splits)
qed

lemma fs_put_get_same: "fs_put w v n = Some n' \<Longrightarrow> fs_get w n' = Some v"
  using fs_put_get_below[of w v n n' "[]"] by simp

lemma fs_del_get_below:
  "fs_del w n = Some n' \<Longrightarrow> fs_get (w @ q) n' = None"
proof (induction w arbitrary: n n')
  case Nil
  then show ?case by simp
next
  case (Cons x w)
  then show ?case
    by (auto simp: update_conv' delete_conv' split: node.splits option.splits if_splits)
qed

text \<open>A write strictly below p keeps p a directory; existence.\<close>

lemma fs_put_above_dir:
  "fs_put (p @ x # q) v n = Some n' \<Longrightarrow> is_dir (fs_get p n') \<and> (fs_get p n \<noteq> None \<longrightarrow> is_dir (fs_get p n))"
proof (induction p arbitrary: n n')
  case Nil
  then show ?case by (auto simp: is_dir_def split: node.splits option.splits)
next
  case (Cons y p)
  from Cons.prems obtain es c' where n: "n = Dir es"
    and c': "fs_put (p @ x # q) v (case map_of es y of None \<Rightarrow> Dir [] | Some c \<Rightarrow> c) = Some c'"
    and n': "n' = Dir (AList.update y c' es)"
    by (auto split: node.splits option.splits)
  from Cons.IH[OF c'] show ?case
    by (auto simp: n n' update_conv' split: option.splits)
qed

lemma fs_del_above_dir:
  "fs_del (p @ x # q) n = Some n' \<Longrightarrow> is_dir (fs_get p n') \<and> is_dir (fs_get p n)"
proof (induction p arbitrary: n n')
  case Nil
  then show ?case by (auto simp: is_dir_def split: node.splits option.splits if_splits)
next
  case (Cons y p)
  then show ?case
    by (auto simp: update_conv' split: node.splits option.splits if_splits)
qed

lemma strict_prefix_split: "strict_prefix p w \<Longrightarrow> \<exists>x q. w = p @ x # q"
  by (metis strict_prefixE' append_Cons append_Nil append_assoc)

lemma is_dir_file_cases:
  "v \<noteq> None \<Longrightarrow> is_file v = (\<not> is_dir v)"
  "is_dir None = False" "is_file None = False"
  by (auto simp: is_dir_def is_file_def split: option.splits node.splits)


lemma not_dir_and_file: "\<not> (is_dir v \<and> is_file v)"
  by (auto simp: is_dir_def is_file_def split: option.splits node.splits)

lemma is_dir_not_None: "is_dir v \<Longrightarrow> v \<noteq> None"
  by (cases v) (auto simp: is_dir_def)



section \<open>The log file\<close>

lemma fs_get_below_exists:
  "strict_prefix p q \<Longrightarrow> fs_get q r \<noteq> None \<Longrightarrow> is_dir (fs_get p r)"
proof -
  assume sp: "strict_prefix p q" and q: "fs_get q r \<noteq> None"
  from sp obtain x t where w: "q = p @ x # t" using strict_prefix_split by blast
  from q show ?thesis unfolding w
    by (cases "fs_get p r"; cases "the (fs_get p r)") (simp_all add: fs_get_append is_dir_def)
qed

lemma file_put_frame:
  assumes "fs_put p (File c m) r = Some r'" "\<not> is_dir (fs_get p r)" "\<not> prefix q p"
  shows "fs_get q r' = fs_get q r"
proof (cases "prefix p q")
  case False
  with assms show ?thesis using fs_put_frame by blast
next
  case True
  with assms(3) have sp: "strict_prefix p q" by (auto simp: strict_prefix_def)
  then obtain x t where w: "q = p @ x # t" using strict_prefix_split by blast
  have "fs_get q r = None"
    using fs_get_below_exists[OF sp, of r] assms(2) by blast
  moreover have "fs_get q r' = None"
    unfolding w by (simp add: fs_get_append fs_put_get_same[OF assms(1)])
  ultimately show ?thesis by simp
qed


lemma file_put_keeps_dir:
  assumes "fs_put p v r = Some r'" "\<not> is_dir (fs_get p r)" "is_dir (fs_get q r)"
  shows "is_dir (fs_get q r')"
proof -
  from assms(3) have ex: "fs_get q r \<noteq> None" by (rule is_dir_not_None)
  have nsp: "\<not> strict_prefix p q" using fs_get_below_exists[of p q r] assms(2) ex by blast
  have ne: "p \<noteq> q" using assms(2,3) by auto
  show ?thesis
  proof (cases "prefix q p")
    case True
    with ne have "strict_prefix q p" by (auto simp: strict_prefix_def)
    then obtain x t where "p = q @ x # t" using strict_prefix_split by blast
    with assms(1) show ?thesis using fs_put_above_dir by blast
  next
    case False
    moreover from nsp ne have "\<not> prefix p q" by (auto simp: strict_prefix_def)
    ultimately show ?thesis using fs_put_frame[OF assms(1)] assms(3) by simp
  qed
qed

lemma open_append_Inr:
  "open_append p now r = Inr r' \<Longrightarrow>
     is_file (fs_get p r')
     \<and> (r' = r \<or> (\<not> is_dir (fs_get p r) \<and> fs_put p (File [] now) r = Some r'))"
  unfolding open_append_def
  by (auto simp: is_file_def is_dir_def fs_put_get_same
           split: option.splits node.splits if_splits)

lemma append_text_cases:
  "append_text p text now r = r
   \<or> (\<exists>c m. fs_get p r = Some (File c m) \<and> fs_put p (File (c @ text) now) r = Some (append_text p text now r))"
  unfolding append_text_def by (auto split: option.splits node.splits)

lemma write_log_Done:
  assumes "write_log t f st = Done st'"
  shows "\<exists>r1. open_append (log_file st) (clock st) (root st) = Inr r1
           \<and> (st' = st\<lparr>root := r1\<rparr>
              \<or> (\<exists>v. st' = log_write v f (st\<lparr>root := r1\<rparr>)
                     \<and> t = (case v of Created \<Rightarrow> ''create'' | Copied \<Rightarrow> ''copy'' | Deleted \<Rightarrow> ''delete'')))"
proof (cases "open_append (log_file st) (clock st) (root st)")
  case (Inl e)
  with assms show ?thesis by (simp add: write_log_def)
next
  case (Inr r1)
  with assms have
    "st' = (if t = ''create'' then log_write Created f (st\<lparr>root := r1\<rparr>)
            else if t = ''copy'' then log_write Copied f (st\<lparr>root := r1\<rparr>)
            else if t = ''delete'' then log_write Deleted f (st\<lparr>root := r1\<rparr>)
            else st\<lparr>root := r1\<rparr>)"
    by (simp add: write_log_def split: if_splits)
  then have "st' = st\<lparr>root := r1\<rparr>
              \<or> (\<exists>v. st' = log_write v f (st\<lparr>root := r1\<rparr>)
                     \<and> t = (case v of Created \<Rightarrow> ''create'' | Copied \<Rightarrow> ''copy'' | Deleted \<Rightarrow> ''delete''))"
    by (auto split: if_splits intro: exI[of _ Created] exI[of _ Copied] exI[of _ Deleted])
  with Inr show ?thesis by blast
qed

lemma write_log_Raised: "write_log t f st = Raised e st' \<Longrightarrow> st' = st"
  by (auto simp: write_log_def split: sum.splits if_splits)

lemma write_log_not_OutOfFuel [simp]: "write_log t f st \<noteq> OutOfFuel"
  by (auto simp: write_log_def split: sum.splits)

lemma write_log_fields:
  assumes "write_log t f st = Done st'"
  shows "log_file st' = log_file st" "cache st' = cache st"
    "file_created_count st' = file_created_count st"
    "file_copied_count st' = file_copied_count st"
    "file_deleted_count st' = file_deleted_count st"
  using write_log_Done[OF assms] by (auto simp: log_write_def)

text \<open>A call of \<^verbatim>\<open>write_log\<close> changes the tree at the log file only, removes nothing
  and leaves every directory a directory.\<close>

lemma write_log_steps:
  assumes "write_log t f st = Done st'"
  obtains r1 where
    "r1 = root st \<or> (\<not> is_dir (fs_get (log_file st) (root st))
        \<and> (\<exists>c m. fs_put (log_file st) (File c m) (root st) = Some r1))"
    "root st' = r1 \<or> (\<not> is_dir (fs_get (log_file st) r1)
        \<and> (\<exists>c m. fs_put (log_file st) (File c m) r1 = Some (root st')))"
proof -
  from write_log_Done[OF assms] obtain r1 where
    op: "open_append (log_file st) (clock st) (root st) = Inr r1"
    and st': "st' = st\<lparr>root := r1\<rparr> \<or> (\<exists>v. st' = log_write v f (st\<lparr>root := r1\<rparr>))" by blast
  from open_append_Inr[OF op] have f1: "is_file (fs_get (log_file st) r1)"
    and a: "r1 = root st \<or> (\<not> is_dir (fs_get (log_file st) (root st))
        \<and> (\<exists>c m. fs_put (log_file st) (File c m) (root st) = Some r1))" by blast+
  from f1 have nd: "\<not> is_dir (fs_get (log_file st) r1)" using not_dir_and_file by blast
  have b: "root st' = r1 \<or> (\<not> is_dir (fs_get (log_file st) r1)
        \<and> (\<exists>c m. fs_put (log_file st) (File c m) r1 = Some (root st')))"
  proof (cases "st' = st\<lparr>root := r1\<rparr>")
    case True
    then show ?thesis by simp
  next
    case False
    with st' obtain v where v: "st' = log_write v f (st\<lparr>root := r1\<rparr>)" by blast
    then have rt: "root st' = append_text (log_file st) (log_text v f) (clock st) r1"
      by (simp add: log_write_def)
    from append_text_cases[of "log_file st" "log_text v f" "clock st" r1] nd
    show ?thesis unfolding rt by auto
  qed
  from a b that show thesis by blast
qed

lemma write_log_frame:
  assumes "write_log t f st = Done st'" "\<not> prefix q (log_file st)"
  shows "fs_get q (root st') = fs_get q (root st)"
proof -
  from assms(1) obtain r1 where
    a: "r1 = root st \<or> (\<not> is_dir (fs_get (log_file st) (root st))
        \<and> (\<exists>c m. fs_put (log_file st) (File c m) (root st) = Some r1))"
    and b: "root st' = r1 \<or> (\<not> is_dir (fs_get (log_file st) r1)
        \<and> (\<exists>c m. fs_put (log_file st) (File c m) r1 = Some (root st')))"
    by (rule write_log_steps)
  from a have "fs_get q r1 = fs_get q (root st)" using file_put_frame assms(2) by blast
  moreover from b have "fs_get q (root st') = fs_get q r1" using file_put_frame assms(2) by blast
  ultimately show ?thesis by simp
qed


lemma write_log_keeps_dir:
  assumes "write_log t f st = Done st'" "is_dir (fs_get q (root st))"
  shows "is_dir (fs_get q (root st'))"
proof -
  from assms(1) obtain r1 where
    a: "r1 = root st \<or> (\<not> is_dir (fs_get (log_file st) (root st))
        \<and> (\<exists>c m. fs_put (log_file st) (File c m) (root st) = Some r1))"
    and b: "root st' = r1 \<or> (\<not> is_dir (fs_get (log_file st) r1)
        \<and> (\<exists>c m. fs_put (log_file st) (File c m) r1 = Some (root st')))"
    by (rule write_log_steps)
  from a assms(2) have "is_dir (fs_get q r1)" using file_put_keeps_dir by blast
  with b show ?thesis using file_put_keeps_dir by blast
qed

section \<open>Sequences of effects\<close>

lemma effects_trans: "effects P D st1 st2 \<Longrightarrow> effects P D st0 st1 \<Longrightarrow> effects P D st0 st2"
  by (induction rule: effects.induct) (blast intro: effects.intros)+

lemma effects_mono: "effects P D st st' \<Longrightarrow> P \<subseteq> P' \<Longrightarrow> D \<subseteq> D' \<Longrightarrow> effects P' D' st st'"
  by (induction rule: effects.induct) (blast intro: effects.intros)+

lemma effects_put1: "w \<in> P \<Longrightarrow> fs_put w v (root st) = Some r \<Longrightarrow> effects P D st (st\<lparr>root := r\<rparr>)"
  by (rule effects_put[OF effects_none])

lemma effects_del1: "w \<in> D \<Longrightarrow> fs_del w (root st) = Some r \<Longrightarrow> effects P D st (st\<lparr>root := r\<rparr>)"
  by (rule effects_del[OF effects_none])

lemma effects_log_file: "effects P D st st' \<Longrightarrow> log_file st' = log_file st"
  by (induction rule: effects.induct) (simp_all add: write_log_fields)

lemma write_log_effects: "final (write_log t f st) = Some st' \<Longrightarrow> effects P D st st'"
proof (cases "write_log t f st")
  case (Done s)
  moreover assume "final (write_log t f st) = Some st'"
  ultimately show ?thesis using effects_log[OF effects_none, of t f st st' P D] by simp
next
  case (Raised e s)
  moreover assume "final (write_log t f st) = Some st'"
  ultimately show ?thesis using write_log_Raised[of t f st e s] by (simp add: effects_none)
qed simp

lemma log_created_effects: "final (log_created srcpath files st) = Some st' \<Longrightarrow> effects P D st st'"
proof (induction files arbitrary: st)
  case Nil
  then show ?case by (simp add: effects_none)
next
  case (Cons f files)
  let ?s = "st\<lparr>file_created_count := file_created_count st + 1\<rparr>"
  have e0: "effects P D st ?s" by (rule effects_created[OF effects_none])
  show ?case
  proof (cases "write_log ''create'' (srcpath @ [f]) ?s")
    case (Done s1)
    have "effects P D ?s s1" by (rule effects_log[OF effects_none Done])
    moreover have "effects P D s1 st'" using Cons.prems Done by (auto intro: Cons.IH)
    ultimately show ?thesis using e0 by (blast intro: effects_trans)
  next
    case (Raised e s)
    with Cons.prems have "final (write_log ''create'' (srcpath @ [f]) ?s) = Some st'" by simp
    then have "effects P D ?s st'" by (rule write_log_effects)
    with e0 show ?thesis by (blast intro: effects_trans)
  qed simp
qed

lemma log_copied_effects: "final (log_copied srcpath files st) = Some st' \<Longrightarrow> effects P D st st'"
proof (induction files arbitrary: st)
  case Nil
  then show ?case by (simp add: effects_none)
next
  case (Cons f files)
  let ?s = "st\<lparr>file_copied_count := file_copied_count st + 1\<rparr>"
  have e0: "effects P D st ?s" by (rule effects_copied[OF effects_none])
  show ?case
  proof (cases "write_log ''copy'' (srcpath @ [f]) ?s")
    case (Done s1)
    have "effects P D ?s s1" by (rule effects_log[OF effects_none Done])
    moreover have "effects P D s1 st'" using Cons.prems Done by (auto intro: Cons.IH)
    ultimately show ?thesis using e0 by (blast intro: effects_trans)
  next
    case (Raised e s)
    with Cons.prems have "final (write_log ''copy'' (srcpath @ [f]) ?s) = Some st'" by simp
    then have "effects P D ?s st'" by (rule write_log_effects)
    with e0 show ?thesis by (blast intro: effects_trans)
  qed simp
qed

lemma log_deleted_effects: "final (log_deleted srcpath files st) = Some st' \<Longrightarrow> effects P D st st'"
proof (induction files arbitrary: st)
  case Nil
  then show ?case by (simp add: effects_none)
next
  case (Cons f files)
  let ?s = "st\<lparr>file_deleted_count := file_deleted_count st + 1\<rparr>"
  have e0: "effects P D st ?s" by (rule effects_deleted[OF effects_none])
  show ?case
  proof (cases "write_log ''delete'' (srcpath @ [f]) ?s")
    case (Done s1)
    have "effects P D ?s s1" by (rule effects_log[OF effects_none Done])
    moreover have "effects P D s1 st'" using Cons.prems Done by (auto intro: Cons.IH)
    ultimately show ?thesis using e0 by (blast intro: effects_trans)
  next
    case (Raised e s)
    with Cons.prems have "final (write_log ''delete'' (srcpath @ [f]) ?s) = Some st'" by simp
    then have "effects P D ?s st'" by (rule write_log_effects)
    with e0 show ?thesis by (blast intro: effects_trans)
  qed simp
qed

text \<open>What effects leave alone.\<close>

lemma effects_frame:
  "effects P D st st' \<Longrightarrow> (\<And>w. w \<in> P \<union> D \<Longrightarrow> \<not> prefix w p \<and> \<not> prefix p w)
     \<Longrightarrow> \<not> prefix p (log_file st)
     \<Longrightarrow> fs_get p (root st') = fs_get p (root st)"
proof (induction rule: effects.induct)
  case (effects_put st st1 w v r)
  then show ?case using fs_put_frame[of w v "root st1" r p] by auto
next
  case (effects_del st st1 w r)
  then show ?case using fs_del_frame[of w "root st1" r p] by auto
next
  case (effects_log st st1 t f st2)
  have "log_file st1 = log_file st" by (rule effects_log_file[OF effects_log(1)])
  with effects_log show ?case using write_log_frame[of t f st1 st2 p] by simp
qed auto

lemma effects_keeps_dir:
  "effects P D st st' \<Longrightarrow> (\<And>w. w \<in> P \<union> D \<Longrightarrow> strict_prefix p w \<or> (\<not> prefix w p \<and> \<not> prefix p w))
     \<Longrightarrow> is_dir (fs_get p (root st)) \<Longrightarrow> is_dir (fs_get p (root st'))"
proof (induction rule: effects.induct)
  case (effects_put st st1 w v r)
  have w: "strict_prefix p w \<or> (\<not> prefix w p \<and> \<not> prefix p w)" using effects_put by auto
  have d: "is_dir (fs_get p (root st1))" using effects_put by auto
  show ?case
  proof (cases "strict_prefix p w")
    case True
    then obtain x q where "w = p @ x # q" using strict_prefix_split by blast
    with effects_put(3) show ?thesis using fs_put_above_dir[of p x q v "root st1" r] by simp
  next
    case False
    with w effects_put(3) d show ?thesis using fs_put_frame[of w v "root st1" r p] by simp
  qed
next
  case (effects_del st st1 w r)
  have w: "strict_prefix p w \<or> (\<not> prefix w p \<and> \<not> prefix p w)" using effects_del by auto
  have d: "is_dir (fs_get p (root st1))" using effects_del by auto
  show ?case
  proof (cases "strict_prefix p w")
    case True
    then obtain x q where "w = p @ x # q" using strict_prefix_split by blast
    with effects_del(3) show ?thesis using fs_del_above_dir[of p x q "root st1" r] by simp
  next
    case False
    with w effects_del(3) d show ?thesis using fs_del_frame[of w "root st1" r p] by simp
  qed
next
  case (effects_log st st1 t f st2)
  then show ?case using write_log_keeps_dir[of t f st1 st2 p] by blast
qed auto


section \<open>The effects of the Applier\<close>

lemma shutil_copytree_Inr:
  "shutil_copytree s d r = Inr r' \<Longrightarrow>
     \<exists>es. fs_get s r = Some (Dir es) \<and> fs_get d r = None \<and> fs_put d (Dir es) r = Some r'"
  by (auto simp: shutil_copytree_def split: option.splits node.splits if_splits)

lemma shutil_copy2_Inr:
  "shutil_copy2 s d r = Inr r' \<Longrightarrow> is_dir (fs_get d r) \<Longrightarrow> s \<noteq> [] \<Longrightarrow>
     \<exists>c m. fs_get s r = Some (File c m) \<and> fs_put (d @ [last s]) (File c m) r = Some r'"
  by (auto simp: shutil_copy2_def os_path_isdir_def basename_def Let_def
           split: option.splits node.splits if_splits)

lemma os_remove_Inr: "os_remove p r = Inr r' \<Longrightarrow> is_file (fs_get p r) \<and> fs_del p r = Some r'"
  by (auto simp: os_remove_def is_file_def split: option.splits node.splits)

lemma shutil_rmtree_Inr: "shutil_rmtree p r = Inr r' \<Longrightarrow> is_dir (fs_get p r) \<and> fs_del p r = Some r'"
  by (auto simp: shutil_rmtree_def is_dir_def split: option.splits node.splits)

lemma children_insert: "children p (insert m ns) = insert (p @ [m]) (children p ns)"
  by (simp add: children_def)

lemma fs_put_child_keeps_dir: "fs_put (p @ [m]) v r = Some r' \<Longrightarrow> is_dir (fs_get p r')"
  using fs_put_above_dir[of p m "[]" v r r'] by simp

lemma final_and_then:
  "final (and_then r f) = Some st' \<Longrightarrow>
     (\<exists>s1. r = Done s1 \<and> final (f s1) = Some st') \<or> (\<exists>e. r = Raised e st')"
  by (cases r) (auto simp: and_then_def)

lemma below_child_subset: "below (p @ [m]) \<subseteq> below p"
  by (auto simp: below_def strict_prefix_def dest: append_prefixD)

lemma children_subset_below: "children p ns \<subseteq> below p"
  by (auto simp: below_def children_def strict_prefix_def)

lemma effects_below_keeps_dir:
  assumes "effects P D st st'" "P \<subseteq> below p" "D \<subseteq> below p" "is_dir (fs_get p (root st))"
  shows "is_dir (fs_get p (root st'))"
  using assms(1) _ assms(4)
proof (rule effects_keeps_dir)
  fix w assume "w \<in> P \<union> D"
  with assms(2,3) show "strict_prefix p w \<or> (\<not> prefix w p \<and> \<not> prefix p w)"
    by (auto simp: below_def)
qed

lemma copy_files_Cons:
  "copy_files (f # fs) src dest new st =
     and_then (copy_files [f] src dest new st) (copy_files fs src dest new)"
  by (simp add: Let_def and_then_def split: sum.splits outcome.splits)

lemma delete_files_Cons:
  "delete_files (f # fs) folder st =
     and_then (delete_files [f] folder st) (delete_files fs folder)"
  by (simp add: Let_def and_then_def split: sum.splits outcome.splits)

lemma for_each_Cons: "for_each body (x # xs) st = and_then (body x st) (for_each body xs)"
  by (cases "body x st") (simp_all add: and_then_def)

lemma copy_files_one_effects:
  assumes dir: "is_dir (fs_get dest (root st))"
    and fin: "final (copy_files [nm] src dest new st) = Some st'"
  shows "effects {dest @ [nm]} D st st'"
proof (cases "os_path_isdir (src @ [nm]) (root st)")
  case True
  show ?thesis
  proof (cases "shutil_copytree (src @ [nm]) (dest @ [nm]) (root st)")
    case (Inl e)
    with True fin show ?thesis by (simp add: effects_none Let_def)
  next
    case (Inr root1)
    then obtain es where put: "fs_put (dest @ [nm]) (Dir es) (root st) = Some root1"
      using shutil_copytree_Inr by blast
    have e1: "effects {dest @ [nm]} D st (st\<lparr>root := root1\<rparr>)"
      by (rule effects_put1[OF _ put]) simp
    show ?thesis
    proof (cases "os_listdir (src @ [nm]) root1")
      case (Inl e)
      with True Inr fin e1 show ?thesis by (simp add: Let_def)
    next
      case (Inr files)
      let ?r = "if new then log_created (src @ [nm]) files (st\<lparr>root := root1\<rparr>)
                else log_copied (src @ [nm]) files (st\<lparr>root := root1\<rparr>)"
      have "final ?r = Some st'"
        using True \<open>shutil_copytree _ _ _ = Inr root1\<close> Inr fin
        by (cases ?r) (simp_all add: Let_def)
      then have "effects {dest @ [nm]} D (st\<lparr>root := root1\<rparr>) st'"
        by (cases new) (simp_all add: log_created_effects log_copied_effects)
      with e1 show ?thesis by (blast intro: effects_trans)
    qed
  qed
next
  case False
  show ?thesis
  proof (cases "shutil_copy2 (src @ [nm]) dest (root st)")
    case (Inl e)
    with False fin show ?thesis by (simp add: effects_none Let_def)
  next
    case (Inr root1)
    then obtain c m where put: "fs_put (dest @ [nm]) (File c m) (root st) = Some root1"
      using shutil_copy2_Inr[OF Inr dir] by auto
    have e1: "effects {dest @ [nm]} D st (st\<lparr>root := root1\<rparr>)"
      by (rule effects_put1[OF _ put]) simp
    let ?s = "if new then st\<lparr>root := root1, file_created_count := file_created_count st + 1\<rparr>
              else st\<lparr>root := root1, file_copied_count := file_copied_count st + 1\<rparr>"
    let ?r = "write_log (if new then ''create'' else ''copy'') (src @ [nm]) ?s"
    have e2: "effects {dest @ [nm]} D (st\<lparr>root := root1\<rparr>) ?s"
      using effects_created[OF effects_none, of "{dest @ [nm]}" D "st\<lparr>root := root1\<rparr>"]
            effects_copied[OF effects_none, of "{dest @ [nm]}" D "st\<lparr>root := root1\<rparr>"]
      by simp
    have "final ?r = Some st'"
      using False Inr fin by (cases new; cases ?r) (simp_all add: Let_def)
    then have "effects {dest @ [nm]} D ?s st'" by (rule write_log_effects)
    with e1 e2 show ?thesis by (blast intro: effects_trans)
  qed
qed

lemma copy_files_effects:
  "is_dir (fs_get dest (root st)) \<Longrightarrow> final (copy_files ns src dest new st) = Some st'
     \<Longrightarrow> effects (children dest (set ns)) D st st'"
proof (induction ns arbitrary: st)
  case Nil
  then show ?case by (simp add: effects_none)
next
  case (Cons nm ns)
  let ?P = "children dest (set (nm # ns))"
  have sub: "children dest (set ns) \<subseteq> ?P" and mem: "{dest @ [nm]} \<subseteq> ?P"
    by (auto simp: children_def)
  have eq: "copy_files (nm # ns) src dest new st =
      and_then (copy_files [nm] src dest new st) (copy_files ns src dest new)"
    by (rule copy_files_Cons)
  from Cons.prems(2) have
    "final (and_then (copy_files [nm] src dest new st) (copy_files ns src dest new)) = Some st'"
    by (simp only: eq)
  from final_and_then[OF this] show ?case
  proof (elim disjE exE conjE)
    fix s1 assume one: "copy_files [nm] src dest new st = Done s1"
      and rest: "final (copy_files ns src dest new s1) = Some st'"
    have f1: "final (copy_files [nm] src dest new st) = Some s1" by (simp only: one final.simps)
    have e1: "effects {dest @ [nm]} D st s1"
      by (rule copy_files_one_effects[OF Cons.prems(1) f1])
    have e0: "effects {dest @ [nm]} {} st s1"
      by (rule copy_files_one_effects[OF Cons.prems(1) f1])
    have "is_dir (fs_get dest (root s1))"
      by (rule effects_below_keeps_dir[OF e0 _ _ Cons.prems(1)])
         (auto simp: below_def strict_prefix_def)
    from Cons.IH[OF this rest] have "effects ?P D s1 st'" using sub by (rule effects_mono) simp
    moreover from e1 have "effects ?P D st s1" using mem by (rule effects_mono) simp
    ultimately show ?thesis by (blast intro: effects_trans)
  next
    fix e assume r: "copy_files [nm] src dest new st = Raised e st'"
    have "final (copy_files [nm] src dest new st) = Some st'" by (simp only: r final.simps)
    then have "effects {dest @ [nm]} D st st'"
      by (rule copy_files_one_effects[OF Cons.prems(1)])
    then show ?thesis using mem by (rule effects_mono) simp
  qed
qed

lemma delete_files_one_effects:
  assumes fin: "final (delete_files [nm] folder st) = Some st'"
  shows "effects P {folder @ [nm]} st st'"
proof (cases "os_path_isdir (folder @ [nm]) (root st)")
  case True
  show ?thesis
  proof (cases "os_listdir (folder @ [nm]) (root st)")
    case (Inl e)
    with True fin show ?thesis by (simp add: effects_none Let_def)
  next
    case (Inr files)
    show ?thesis
    proof (cases "log_deleted (folder @ [nm]) files st")
      case (Done s1)
      have "final (log_deleted (folder @ [nm]) files st) = Some s1"
        by (simp only: Done final.simps)
      then have e1: "effects P {folder @ [nm]} st s1" by (rule log_deleted_effects)
      show ?thesis
      proof (cases "shutil_rmtree (folder @ [nm]) (root s1)")
        case (Inl e)
        with True Inr Done fin e1 show ?thesis by (simp add: Let_def)
      next
        case r: (Inr root1)
        then have del: "fs_del (folder @ [nm]) (root s1) = Some root1"
          using shutil_rmtree_Inr by simp
        have "effects P {folder @ [nm]} s1 (s1\<lparr>root := root1\<rparr>)"
          by (rule effects_del1[OF _ del]) simp
        moreover have "st' = s1\<lparr>root := root1\<rparr>"
          using True Inr Done r fin by (simp add: Let_def)
        ultimately show ?thesis using e1 by (blast intro: effects_trans)
      qed
    next
      case (Raised e s)
      with True Inr fin have "final (log_deleted (folder @ [nm]) files st) = Some st'"
        by (simp add: Let_def)
      then show ?thesis by (rule log_deleted_effects)
    next
      case OutOfFuel
      with True Inr fin show ?thesis by (simp add: Let_def)
    qed
  qed
next
  case False
  show ?thesis
  proof (cases "os_remove (folder @ [nm]) (root st)")
    case (Inl e)
    with False fin show ?thesis by (simp add: effects_none Let_def)
  next
    case (Inr root1)
    then have del: "fs_del (folder @ [nm]) (root st) = Some root1"
      using os_remove_Inr by simp
    have e1: "effects P {folder @ [nm]} st (st\<lparr>root := root1\<rparr>)"
      by (rule effects_del1[OF _ del]) simp
    let ?s = "st\<lparr>root := root1, file_deleted_count := file_deleted_count st + 1\<rparr>"
    have e2: "effects P {folder @ [nm]} (st\<lparr>root := root1\<rparr>) ?s"
      using effects_deleted[OF effects_none, of P "{folder @ [nm]}" "st\<lparr>root := root1\<rparr>"]
      by simp
    have "final (write_log ''delete'' (folder @ [nm]) ?s) = Some st'"
      using False Inr fin by (cases "write_log ''delete'' (folder @ [nm]) ?s") (simp_all add: Let_def)
    then have "effects P {folder @ [nm]} ?s st'" by (rule write_log_effects)
    with e1 e2 show ?thesis by (blast intro: effects_trans)
  qed
qed

lemma delete_files_effects:
  "final (delete_files ns folder st) = Some st' \<Longrightarrow> effects P (children folder (set ns)) st st'"
proof (induction ns arbitrary: st)
  case Nil
  then show ?case by (simp add: effects_none)
next
  case (Cons nm ns)
  let ?D = "children folder (set (nm # ns))"
  have sub: "children folder (set ns) \<subseteq> ?D" and mem: "{folder @ [nm]} \<subseteq> ?D"
    by (auto simp: children_def)
  have eq: "delete_files (nm # ns) folder st =
      and_then (delete_files [nm] folder st) (delete_files ns folder)"
    by (rule delete_files_Cons)
  from Cons.prems have
    "final (and_then (delete_files [nm] folder st) (delete_files ns folder)) = Some st'"
    by (simp only: eq)
  from final_and_then[OF this] show ?case
  proof (elim disjE exE conjE)
    fix s1 assume one: "delete_files [nm] folder st = Done s1"
      and rest: "final (delete_files ns folder s1) = Some st'"
    have "final (delete_files [nm] folder st) = Some s1" by (simp only: one final.simps)
    then have e1: "effects P {folder @ [nm]} st s1" by (rule delete_files_one_effects)
    from Cons.IH[OF rest] have "effects P ?D s1 st'" using _ sub by (rule effects_mono) simp
    moreover from e1 have "effects P ?D st s1" using _ mem by (rule effects_mono) simp
    ultimately show ?thesis by (blast intro: effects_trans)
  next
    fix e assume r: "delete_files [nm] folder st = Raised e st'"
    have "final (delete_files [nm] folder st) = Some st'" by (simp only: r final.simps)
    then have "effects P {folder @ [nm]} st st'" by (rule delete_files_one_effects)
    then show ?thesis using _ mem by (rule effects_mono) simp
  qed
qed

lemma for_each_effects:
  "(\<And>x s s'. x \<in> set xs \<Longrightarrow> final (body x s) = Some s' \<Longrightarrow> effects P D s s')
     \<Longrightarrow> final (for_each body xs st) = Some st' \<Longrightarrow> effects P D st st'"
proof (induction xs arbitrary: st)
  case Nil
  then show ?case by (simp add: effects_none)
next
  case (Cons x xs)
  show ?case
  proof (cases "body x st")
    case (Done s1)
    have "effects P D st s1" using Cons.prems(1)[of x st s1] Done by simp
    moreover have "effects P D s1 st'"
    proof (rule Cons.IH)
      show "final (for_each body xs s1) = Some st'" using Cons.prems(2) Done by simp
    qed (use Cons.prems(1) in auto)
    ultimately show ?thesis by (blast intro: effects_trans)
  next
    case (Raised e s1)
    then show ?thesis using Cons.prems(1)[of x st s1] Cons.prems(2) by simp
  next
    case OutOfFuel
    then show ?thesis using Cons.prems(2) by simp
  qed
qed

section \<open>The steps of one level\<close>

lemma guard_for_each: "(if xs \<noteq> [] then for_each body xs st else Done st) = for_each body xs st"
  by (cases xs) simp_all

lemma guard_copy_files:
  "(if ns \<noteq> [] then copy_files ns src dest new st else Done st) = copy_files ns src dest new st"
  by (cases ns) simp_all

lemma guard_delete_files:
  "(if ns \<noteq> [] then delete_files ns folder st else Done st) = delete_files ns folder st"
  by (cases ns) simp_all

lemma compare_folders_steps:
  "compare_folders (Suc depth) src repl st =
     (case phase0 src repl (root st) of
        Inl e \<Rightarrow> Raised e st
      | Inr (left_list, right_list) \<Rightarrow>
          and_then
            (for_each (\<lambda>folder. compare_folders depth (src @ [folder]) (repl @ [folder]))
               (common_dirs (phase2 src repl (common (phase1 left_list right_list)) (root st))) st)
            (\<lambda>st1.
          and_then (copy_files (left_only (phase1 left_list right_list)) src repl True st1)
            (\<lambda>st2.
          and_then (delete_files (right_only (phase1 left_list right_list)) repl st2)
            (\<lambda>st3.
               copy_files
                 (fst (snd (fst (phase3 src repl
                    (common_files (phase2 src repl (common (phase1 left_list right_list)) (root st)))
                    (root st3) (cache st3)))))
                 src repl False
                 (st3\<lparr>cache := snd (phase3 src repl
                    (common_files (phase2 src repl (common (phase1 left_list right_list)) (root st)))
                    (root st3) (cache st3))\<rparr>)))))"
proof (cases "phase0 src repl (root st)")
  case (Inl e)
  then show ?thesis by simp
next
  case (Inr lr)
  obtain ll rl where lr: "lr = (ll, rl)" by (cases lr)
  show ?thesis
    by (simp only: compare_folders.simps Inr lr sum.case prod.case Let_def guard_for_each
          guard_copy_files guard_delete_files case_prod_beta)
qed

lemma phase0_Inr:
  "phase0 src repl r = Inr (ll, rl) \<Longrightarrow>
     \<exists>es er. fs_get src r = Some (Dir es) \<and> fs_get repl r = Some (Dir er)
       \<and> ll = sort (filter_skip (map fst es) (hide @ DEFAULT_IGNORES))
       \<and> rl = sort (filter_skip (map fst er) (hide @ DEFAULT_IGNORES))"
  unfolding phase0_def os_listdir_def
  by (cases "fs_get src r"; cases "fs_get repl r"; cases "the (fs_get src r)"; cases "the (fs_get repl r)")
     auto

lemma cmpfiles_None:
  "filecmp_cmp (a @ [x]) (b @ [x]) r c = None \<Longrightarrow> cmpfiles a b xs r c = ((s, d, f), c2)
     \<Longrightarrow> cmpfiles a b (x # xs) r c = ((s, d, x # f), c2)"
  by simp

lemma cmpfiles_True:
  "filecmp_cmp (a @ [x]) (b @ [x]) r c = Some (True, c1) \<Longrightarrow> cmpfiles a b xs r c1 = ((s, d, f), c2)
     \<Longrightarrow> cmpfiles a b (x # xs) r c = ((x # s, d, f), c2)"
  by simp

lemma cmpfiles_False:
  "filecmp_cmp (a @ [x]) (b @ [x]) r c = Some (False, c1) \<Longrightarrow> cmpfiles a b xs r c1 = ((s, d, f), c2)
     \<Longrightarrow> cmpfiles a b (x # xs) r c = ((s, x # d, f), c2)"
  by simp

lemma cmpfiles_subset:
  "cmpfiles a b xs r c = ((same, diff, funny), c') \<Longrightarrow> set same \<union> set diff \<union> set funny = set xs"
proof (induction xs arbitrary: same diff funny c c')
  case Nil
  then show ?case by simp
next
  case (Cons x xs)
  show ?case
  proof (cases "filecmp_cmp (a @ [x]) (b @ [x]) r c")
    case None
    obtain s d f c2 where rec: "cmpfiles a b xs r c = ((s, d, f), c2)"
      by (metis prod.exhaust)
    from Cons.prems cmpfiles_None[OF None rec] have "same = s" "diff = d" "funny = x # f"
      by simp_all
    with Cons.IH[OF rec] show ?thesis by auto
  next
    case (Some tc)
    obtain t c1 where tc: "tc = (t, c1)" by (cases tc)
    obtain s d f c2 where rec: "cmpfiles a b xs r c1 = ((s, d, f), c2)"
      by (metis prod.exhaust)
    show ?thesis
    proof (cases t)
      case True
      from Some tc True have fc: "filecmp_cmp (a @ [x]) (b @ [x]) r c = Some (True, c1)" by simp
      from Cons.prems cmpfiles_True[OF fc rec]
      have "same = x # s" "diff = d" "funny = f" by simp_all
      with Cons.IH[OF rec] show ?thesis by auto
    next
      case False
      from Some tc False have fc: "filecmp_cmp (a @ [x]) (b @ [x]) r c = Some (False, c1)" by simp
      from Cons.prems cmpfiles_False[OF fc rec]
      have "same = s" "diff = x # d" "funny = f" by simp_all
      with Cons.IH[OF rec] show ?thesis by auto
    qed
  qed
qed

lemma level_puts_below: "level_puts src repl r \<subseteq> below repl"
proof (cases "phase0 src repl r")
  case (Inl e)
  then show ?thesis by (simp add: level_puts_def)
next
  case (Inr lr)
  obtain ll rl where lr: "lr = (ll, rl)" by (cases lr)
  show ?thesis
    unfolding level_puts_def Inr lr sum.case prod.case
    using below_child_subset[of repl] children_subset_below[of repl] by blast
qed

lemma level_dels_below: "level_dels src repl r \<subseteq> below repl"
proof (cases "phase0 src repl r")
  case (Inl e)
  then show ?thesis by (simp add: level_dels_def)
next
  case (Inr lr)
  obtain ll rl where lr: "lr = (ll, rl)" by (cases lr)
  show ?thesis
    unfolding level_dels_def Inr lr sum.case prod.case
    using below_child_subset[of repl] children_subset_below[of repl] by blast
qed

lemma level_effects:
  assumes rec: "\<And>d s s'. final (compare_folders k (src @ [d]) (repl @ [d]) s) = Some s'
                  \<Longrightarrow> effects (below (repl @ [d])) (below (repl @ [d])) s s'"
    and fin: "final (compare_folders (Suc k) src repl st) = Some st'"
  shows "effects (level_puts src repl (root st)) (level_dels src repl (root st)) st st'"
proof (cases "phase0 src repl (root st)")
  case (Inl e)
  with fin show ?thesis by (simp add: effects_none)
next
  case (Inr lr)
  obtain ll rl where lr: "lr = (ll, rl)" by (cases lr)
  let ?p1 = "phase1 ll rl"
  let ?p2 = "phase2 src repl (common ?p1) (root st)"
  define P where "P = level_puts src repl (root st)"
  define D where "D = level_dels src repl (root st)"
  have P: "P = (\<Union>m \<in> set (common_dirs ?p2). below (repl @ [m]))
                 \<union> children repl (set (left_only ?p1) \<union> set (common_files ?p2))"
    using Inr lr by (simp add: P_def level_puts_def)
  have D: "D = (\<Union>m \<in> set (common_dirs ?p2). below (repl @ [m]))
                 \<union> children repl (set (right_only ?p1))"
    using Inr lr by (simp add: D_def level_dels_def)
  have Pb: "P \<subseteq> below repl" and Db: "D \<subseteq> below repl"
    by (simp_all add: P_def D_def level_puts_below level_dels_below)
  from phase0_Inr[OF Inr[unfolded lr]] have dir0: "is_dir (fs_get repl (root st))"
    by (auto simp: is_dir_def)
  define r1 where "r1 =
     for_each (\<lambda>folder. compare_folders k (src @ [folder]) (repl @ [folder])) (common_dirs ?p2) st"
  define step2 where "step2 = (\<lambda>st1. copy_files (left_only ?p1) src repl True st1)"
  define step3 where "step3 = (\<lambda>st2. delete_files (right_only ?p1) repl st2)"
  define step4 where "step4 = (\<lambda>st3. copy_files
       (fst (snd (fst (phase3 src repl (common_files ?p2) (root st3) (cache st3))))) src repl False
       (st3\<lparr>cache := snd (phase3 src repl (common_files ?p2) (root st3) (cache st3))\<rparr>))"
  have cf: "compare_folders (Suc k) src repl st =
      and_then r1 (\<lambda>st1. and_then (step2 st1) (\<lambda>st2. and_then (step3 st2) step4))"
    unfolding r1_def step2_def step3_def step4_def
    by (simp only: compare_folders_steps Inr lr sum.case prod.case)
  have e1: "effects P D st s" if f: "final r1 = Some s" for s
  proof (rule for_each_effects[OF _ f[unfolded r1_def]])
    fix x s1 s2 assume x: "x \<in> set (common_dirs ?p2)"
      and c: "final (compare_folders k (src @ [x]) (repl @ [x]) s1) = Some s2"
    have "effects (below (repl @ [x])) (below (repl @ [x])) s1 s2" using c by (rule rec)
    then show "effects P D s1 s2" by (rule effects_mono) (use x in \<open>auto simp: P D\<close>)
  qed
  have e2: "effects P D s1 s" if "final (step2 s1) = Some s" "is_dir (fs_get repl (root s1))" for s1 s
  proof -
    from that have "effects (children repl (set (left_only ?p1))) D s1 s"
      by (simp add: step2_def copy_files_effects)
    then show ?thesis by (rule effects_mono) (auto simp: P children_def)
  qed
  have e3: "effects P D s2 s" if "final (step3 s2) = Some s" for s2 s
  proof -
    from that have "effects P (children repl (set (right_only ?p1))) s2 s"
      by (simp add: step3_def delete_files_effects)
    then show ?thesis by (rule effects_mono) (auto simp: D)
  qed
  have e4: "effects P D s3 s" if "final (step4 s3) = Some s" "is_dir (fs_get repl (root s3))" for s3 s
  proof -
    obtain same diff funny c3 where
      ph: "phase3 src repl (common_files ?p2) (root s3) (cache s3) = ((same, diff, funny), c3)"
      by (cases "phase3 src repl (common_files ?p2) (root s3) (cache s3)") auto
    then have sub: "set diff \<subseteq> set (common_files ?p2)"
      using cmpfiles_subset[of src repl "common_files ?p2" "root s3" "cache s3" same diff funny c3]
      by (auto simp: phase3_def)
    have c: "effects P D s3 (s3\<lparr>cache := c3\<rparr>)" by (rule effects_cache[OF effects_none])
    from that ph have "effects (children repl (set diff)) D (s3\<lparr>cache := c3\<rparr>) s"
      by (simp add: step4_def copy_files_effects)
    then have "effects P D (s3\<lparr>cache := c3\<rparr>) s"
      by (rule effects_mono) (use sub in \<open>auto simp: P children_def\<close>)
    with c show ?thesis by (blast intro: effects_trans)
  qed
  note keep = effects_below_keeps_dir[OF _ Pb Db]
  note fin' = fin[unfolded cf]
  have "effects P D st st'"
  proof (cases r1)
    case OutOfFuel
    with fin' show ?thesis by (simp add: and_then_def)
  next
    case (Raised e s)
    with fin' have "s = st'" by (simp add: and_then_def)
    with Raised e1 show ?thesis by simp
  next
    case (Done s1)
    have a: "effects P D st s1" using e1 Done by simp
    note d1 = keep[OF a dir0]
    show ?thesis
    proof (cases "step2 s1")
      case OutOfFuel
      with fin' Done show ?thesis by (simp add: and_then_def)
    next
      case (Raised e s)
      with fin' Done have "s = st'" by (simp add: and_then_def)
      with Raised e2[OF _ d1, of st'] a show ?thesis by (auto intro: effects_trans)
    next
      case s2: (Done s2)
      have b: "effects P D st s2" using e2[OF _ d1, of s2] s2 a by (auto intro: effects_trans)
      show ?thesis
      proof (cases "step3 s2")
        case OutOfFuel
        with fin' Done s2 show ?thesis by (simp add: and_then_def)
      next
        case (Raised e s)
        with fin' Done s2 have "s = st'" by (simp add: and_then_def)
        with Raised e3[of s2 st'] b show ?thesis by (auto intro: effects_trans)
      next
        case s3: (Done s3)
        have c: "effects P D st s3" using e3[of s2 s3] s3 b by (auto intro: effects_trans)
        have "final (step4 s3) = Some st'" using fin' Done s2 s3 by (simp add: and_then_def)
        from e4[OF this keep[OF c dir0]] c show ?thesis by (auto intro: effects_trans)
      qed
    qed
  qed
  then show ?thesis by (simp add: P_def D_def)
qed

lemma compare_folders_effects_below:
  "final (compare_folders k src repl st) = Some st' \<Longrightarrow> effects (below repl) (below repl) st st'"
proof (induction k arbitrary: src repl st st')
  case 0
  then show ?case by simp
next
  case (Suc k)
  have "effects (level_puts src repl (root st)) (level_dels src repl (root st)) st st'"
    by (rule level_effects[OF Suc.IH Suc.prems])
  then show ?case by (rule effects_mono) (rule level_puts_below level_dels_below)+
qed


section \<open>Log lines and counters of the Applier\<close>

text \<open>
  C2. The spec asks for one log line and one increment per file anywhere inside a
  directory that is copied or deleted. \<^verbatim>\<open>copy_files\<close> and \<^verbatim>\<open>delete_files\<close> loop over
  \<^verbatim>\<open>os.listdir(srcpath)\<close>, the immediate entries only. For the directory \<open>d\<close> (and
  \<open>old\<close>) holding one subdirectory \<open>e\<close> with two files, the copy and the deletion each
  write one line, naming the subdirectory \<open>e\<close> as a file, and count one, where the tree
  holds two files.
\<close>

theorem applier_counts_immediate_entries:
  "leaf_files nested_tree = 2 \<and>
   copy_files [''d''] [''s''] [''r''] True (fresh_state nested_root [''log.txt''] 100) =
     Done \<lparr>root = Dir [(''s'', Dir [(''d'', nested_tree)]),
                       (''r'', Dir [(''old'', nested_tree), (''d'', nested_tree)]),
                       (''log.txt'', File (log_text Created [''s'', ''d'', ''e'']) 100)],
           clock = 101, cache = [], log_file = [''log.txt''],
           log_lines = [(Created, [''s'', ''d'', ''e''])],
           file_created_count = 1, file_copied_count = 0, file_deleted_count = 0\<rparr> \<and>
   delete_files [''old''] [''r''] (fresh_state nested_root [''log.txt''] 100) =
     Done \<lparr>root = Dir [(''s'', Dir [(''d'', nested_tree)]), (''r'', Dir []),
                       (''log.txt'', File (log_text Deleted [''r'', ''old'', ''e'']) 100)],
           clock = 101, cache = [], log_file = [''log.txt''],
           log_lines = [(Deleted, [''r'', ''old'', ''e''])],
           file_created_count = 0, file_copied_count = 0, file_deleted_count = 1\<rparr> \<and>
   log_text Created [''s'', ''d'', ''e''] = ''Created file: /s/d/e'' @ [CHR 0x0A]"
  by code_simp

section \<open>Classification of a directory pair\<close>

lemma phase2_Cons_dirs:
  "common_dirs (phase2 l r (x # xs) rt) =
     (if is_dir (fs_get (l @ [x]) rt) \<and> is_dir (fs_get (r @ [x]) rt)
      then x # common_dirs (phase2 l r xs rt) else common_dirs (phase2 l r xs rt))"
  by (cases "fs_get (l @ [x]) rt"; cases "fs_get (r @ [x]) rt")
     (simp_all add: Let_def is_dir_file_cases)

lemma phase2_Cons_files:
  "common_files (phase2 l r (x # xs) rt) =
     (if is_file (fs_get (l @ [x]) rt) \<and> is_file (fs_get (r @ [x]) rt)
      then x # common_files (phase2 l r xs rt) else common_files (phase2 l r xs rt))"
  by (cases "fs_get (l @ [x]) rt"; cases "fs_get (r @ [x]) rt")
     (simp_all add: Let_def is_dir_file_cases)

lemma phase2_Cons_funny:
  "common_funny (phase2 l r (x # xs) rt) =
     (if (is_dir (fs_get (l @ [x]) rt) \<and> is_dir (fs_get (r @ [x]) rt))
         \<or> (is_file (fs_get (l @ [x]) rt) \<and> is_file (fs_get (r @ [x]) rt))
      then common_funny (phase2 l r xs rt) else x # common_funny (phase2 l r xs rt))"
  by (cases "fs_get (l @ [x]) rt"; cases "fs_get (r @ [x]) rt")
     (simp_all add: Let_def is_dir_file_cases)

lemma set_phase2_dirs:
  "set (common_dirs (phase2 l r xs rt)) =
     {x \<in> set xs. is_dir (fs_get (l @ [x]) rt) \<and> is_dir (fs_get (r @ [x]) rt)}"
proof (induction xs)
  case Nil
  show ?case by simp
next
  case (Cons x xs)
  show ?case unfolding phase2_Cons_dirs using Cons.IH by auto
qed

lemma set_phase2_files:
  "set (common_files (phase2 l r xs rt)) =
     {x \<in> set xs. is_file (fs_get (l @ [x]) rt) \<and> is_file (fs_get (r @ [x]) rt)}"
proof (induction xs)
  case Nil
  show ?case by simp
next
  case (Cons x xs)
  show ?case unfolding phase2_Cons_files using Cons.IH by auto
qed

lemma set_phase2_funny:
  "set (common_funny (phase2 l r xs rt)) =
     {x \<in> set xs. \<not> (is_dir (fs_get (l @ [x]) rt) \<and> is_dir (fs_get (r @ [x]) rt))
                \<and> \<not> (is_file (fs_get (l @ [x]) rt) \<and> is_file (fs_get (r @ [x]) rt))}"
proof (induction xs)
  case Nil
  show ?case by simp
next
  case (Cons x xs)
  show ?case unfolding phase2_Cons_funny using Cons.IH by auto
qed

lemma distinct_phase2:
  "distinct xs \<Longrightarrow> distinct (common_dirs (phase2 l r xs rt))
     \<and> distinct (common_files (phase2 l r xs rt)) \<and> distinct (common_funny (phase2 l r xs rt))"
proof (induction xs)
  case Nil
  show ?case by simp
next
  case (Cons x xs)
  then show ?case
    unfolding phase2_Cons_dirs phase2_Cons_files phase2_Cons_funny
    by (simp add: set_phase2_dirs set_phase2_files set_phase2_funny)
qed

lemma set_phase1:
  "set (common (phase1 ll rl)) = set ll \<inter> set rl"
  "set (left_only (phase1 ll rl)) = set ll - set rl"
  "set (right_only (phase1 ll rl)) = set rl - set ll"
  by (auto simp: phase1_def Let_def)

lemma distinct_phase1:
  "distinct (common (phase1 ll rl))"
  "distinct (left_only (phase1 ll rl))"
  "distinct (right_only (phase1 ll rl))"
  by (auto simp: phase1_def Let_def)

lemma set_filter_skip: "set (filter_skip xs skip) = set xs - set skip"
  by (auto simp: filter_skip_def)

lemma phase0_sets:
  assumes "phase0 left right rt = Inr (ll, rl)"
  shows "\<exists>l r. os_listdir left rt = Inr l \<and> os_listdir right rt = Inr r
           \<and> set ll = set l - set (hide @ DEFAULT_IGNORES)
           \<and> set rl = set r - set (hide @ DEFAULT_IGNORES)"
  using phase0_Inr[OF assms] by (auto simp: os_listdir_def set_filter_skip)

text \<open>
  C4 (as amended). The four result sets of the Comparator, common subdirectories,
  source-only names, replica-only names and differing files, are pairwise disjoint. They
  do not cover every entry name: together with the files found equal, the names whose
  comparison failed and the common names that are not two directories or two regular
  files, they make up the names of both directories without those \<^verbatim>\<open>dircmp\<close> hides
  or ignores. The differing files may be computed on a later state \<open>rt3\<close> and with any
  cache \<open>c3\<close>, as \<^verbatim>\<open>compare_folders\<close> does.
\<close>

theorem classification_partition:
  assumes "phase0 left right rt = Inr (ll, rl)"
    and "p1 = phase1 ll rl"
    and "p2 = phase2 left right (common p1) rt"
    and "phase3 left right (common_files p2) rt3 c3 = ((same_files, diff_files, funny_files), c3')"
    and "os_listdir left rt = Inr l" and "os_listdir right rt = Inr r"
  shows "set (common_dirs p2) \<inter> set (left_only p1) = {}
       \<and> set (common_dirs p2) \<inter> set (right_only p1) = {}
       \<and> set (common_dirs p2) \<inter> set diff_files = {}
       \<and> set (left_only p1) \<inter> set (right_only p1) = {}
       \<and> set (left_only p1) \<inter> set diff_files = {}
       \<and> set (right_only p1) \<inter> set diff_files = {}
       \<and> set (common_dirs p2) \<union> set (left_only p1) \<union> set (right_only p1) \<union> set diff_files
           \<union> (set same_files \<union> set funny_files \<union> set (common_funny p2))
         = (set l \<union> set r) - set (hide @ DEFAULT_IGNORES)"
proof -
  from phase0_sets[OF assms(1)] assms(5,6)
  have ll: "set ll = set l - set (hide @ DEFAULT_IGNORES)"
    and rl: "set rl = set r - set (hide @ DEFAULT_IGNORES)" by auto
  have cf: "set same_files \<union> set diff_files \<union> set funny_files = set (common_files p2)"
    using assms(4) cmpfiles_subset by (simp add: phase3_def)
  have c: "set (common p1) = set ll \<inter> set rl" and lo: "set (left_only p1) = set ll - set rl"
    and ro: "set (right_only p1) = set rl - set ll"
    by (simp_all add: assms(2) set_phase1)
  have d: "set (common_dirs p2) \<subseteq> set (common p1)" and f: "set (common_files p2) \<subseteq> set (common p1)"
    and df: "set (common_dirs p2) \<inter> set (common_files p2) = {}"
    and all: "set (common_dirs p2) \<union> set (common_files p2) \<union> set (common_funny p2) = set (common p1)"
    using not_dir_and_file
    by (auto simp: assms(3) set_phase2_dirs set_phase2_files set_phase2_funny)
  have dsub: "set diff_files \<subseteq> set (common_files p2)" using cf by blast
  have 1: "set (common_dirs p2) \<inter> set (left_only p1) = {}" using d c lo by blast
  have 2: "set (common_dirs p2) \<inter> set (right_only p1) = {}" using d c ro by blast
  have 3: "set (common_dirs p2) \<inter> set diff_files = {}" using df dsub by blast
  have 4: "set (left_only p1) \<inter> set (right_only p1) = {}" using lo ro by blast
  have 5: "set (left_only p1) \<inter> set diff_files = {}" using dsub f c lo by blast
  have 6: "set (right_only p1) \<inter> set diff_files = {}" using dsub f c ro by blast
  have "set (common_dirs p2) \<union> set (left_only p1) \<union> set (right_only p1) \<union> set diff_files
           \<union> (set same_files \<union> set funny_files \<union> set (common_funny p2))
        = (set (common_dirs p2) \<union> (set same_files \<union> set diff_files \<union> set funny_files)
             \<union> set (common_funny p2)) \<union> set (left_only p1) \<union> set (right_only p1)"
    by (simp only: Un_ac)
  also have "\<dots> = set (common p1) \<union> set (left_only p1) \<union> set (right_only p1)"
    by (simp only: cf all)
  also have "\<dots> = set ll \<union> set rl" unfolding c lo ro by blast
  also have "\<dots> = (set l \<union> set r) - set (hide @ DEFAULT_IGNORES)" unfolding ll rl by blast
  finally show ?thesis using 1 2 3 4 5 6 by simp
qed

text \<open>The hypotheses of C4 hold for two directories with one identical file.\<close>

theorem classification_partition_witness:
  "set (common_dirs (phase2 [''s''] [''r''] (common (phase1 [''a''] [''a''])) twin_root))
       \<union> set (left_only (phase1 [''a''] [''a''])) \<union> set (right_only (phase1 [''a''] [''a'']))
       \<union> set ([]::name list) \<union> (set [''a''] \<union> set ([]::name list)
       \<union> set (common_funny (phase2 [''s''] [''r''] (common (phase1 [''a''] [''a''])) twin_root)))
     = (set [''a''] \<union> set [''a'']) - set (hide @ DEFAULT_IGNORES)"
proof -
  have 0: "phase0 [''s''] [''r''] twin_root = Inr ([''a''], [''a''])" by code_simp
  have 3: "phase3 [''s''] [''r'']
             (common_files (phase2 [''s''] [''r''] (common (phase1 [''a''] [''a''])) twin_root))
             twin_root [] = (([''a''], [], []), [])" by code_simp
  have l: "os_listdir [''s''] twin_root = Inr [''a'']" and r: "os_listdir [''r''] twin_root = Inr [''a'']"
    by code_simp+
  from classification_partition[OF 0 refl refl 3 l r] show ?thesis by (elim conjE)
qed

text \<open>
  C4 as stated fails there: the file \<open>a\<close>, identical on both sides, is in none of the
  four sets (it is in \<^verbatim>\<open>same_files\<close>), so their union is not the union of the entry
  names.
\<close>

theorem classification_partition_counterexample:
  "os_listdir [''s''] twin_root = Inr [''a''] \<and> os_listdir [''r''] twin_root = Inr [''a'']
   \<and> phase0 [''s''] [''r''] twin_root = Inr ([''a''], [''a''])
   \<and> phase3 [''s''] [''r'']
        (common_files (phase2 [''s''] [''r''] (common (phase1 [''a''] [''a''])) twin_root))
        twin_root [] = (([''a''], [], []), [])
   \<and> set (common_dirs (phase2 [''s''] [''r''] (common (phase1 [''a''] [''a''])) twin_root))
       \<union> set (left_only (phase1 [''a''] [''a''])) \<union> set (right_only (phase1 [''a''] [''a'']))
       \<union> set ([]::name list) \<noteq> set [''a''] \<union> set [''a'']"
  by code_simp

section \<open>The order of the steps\<close>




section \<open>Counters and log lines of a run\<close>

lemma count_lines_append [simp]: "count_lines v (xs @ ys) = count_lines v xs + count_lines v ys"
  by (simp add: count_lines_def)

lemma count_lines_Nil [simp]: "count_lines v [] = 0"
  by (simp add: count_lines_def)

lemma tally_refl: "tally [] st st"
  by (simp add: tally_def)

lemma tally_trans: "tally [] st s \<Longrightarrow> tally p s st' \<Longrightarrow> tally p st st'"
proof -
  assume "tally [] st s" and "tally p s st'"
  then obtain n1 n2 where
    1: "log_lines s = log_lines st @ n1"
       "file_created_count s = file_created_count st + count_lines Created n1"
       "file_copied_count s = file_copied_count st + count_lines Copied n1"
       "file_deleted_count s = file_deleted_count st + count_lines Deleted n1"
    and 2: "log_lines st' = log_lines s @ n2"
       "file_created_count st' = file_created_count s + count_lines Created (n2 @ p)"
       "file_copied_count st' = file_copied_count s + count_lines Copied (n2 @ p)"
       "file_deleted_count st' = file_deleted_count s + count_lines Deleted (n2 @ p)"
    unfolding tally_def by auto
  show ?thesis unfolding tally_def
    by (rule exI[of _ "n1 @ n2"]) (simp add: 1 2)
qed

lemma tallied_Done [simp]: "tallied st (Done st)"
  by (simp add: tallied_def tally_refl)

lemma tallied_and_then:
  assumes "tallied st r" and "\<And>s. r = Done s \<Longrightarrow> tallied s (f s)"
  shows "tallied st (and_then r f)"
proof (cases r)
  case (Done s)
  with assms have a: "tally [] st s" and b: "tallied s (f s)" by (simp_all add: tallied_def)
  show ?thesis
  proof (cases "f s")
    case d: (Done s')
    with b have "tally [] s s'" by (simp add: tallied_def)
    with a have "tally [] st s'" by (rule tally_trans)
    with Done d show ?thesis by (simp add: tallied_def and_then_def)
  next
    case r: (Raised e s')
    with b obtain p where "length p \<le> 1" "tally p s s'" by (auto simp: tallied_def)
    with a have "length p \<le> 1 \<and> tally p st s'" using tally_trans by blast
    with Done r show ?thesis by (auto simp: tallied_def and_then_def)
  next
    case OutOfFuel
    with Done show ?thesis by (simp add: tallied_def and_then_def)
  qed
next
  case (Raised e s)
  with assms(1) show ?thesis by (simp add: and_then_def)
next
  case OutOfFuel
  then show ?thesis by (simp add: tallied_def and_then_def)
qed

lemma tally_fields:
  assumes "log_lines s = log_lines st" "file_created_count s = file_created_count st"
    "file_copied_count s = file_copied_count st" "file_deleted_count s = file_deleted_count st"
  shows "tally p s st' = tally p st st'" "tally p st' s = tally p st' st"
  by (simp_all add: tally_def assms)

lemma tallied_fields:
  assumes "log_lines s = log_lines st" "file_created_count s = file_created_count st"
    "file_copied_count s = file_copied_count st" "file_deleted_count s = file_deleted_count st"
  shows "tallied s r = tallied st r"
  by (cases r) (simp_all add: tallied_def tally_fields(1)[OF assms])

lemma write_log_kinds:
  "write_log ''create'' f st =
     (case open_append (log_file st) (clock st) (root st) of
        Inl e \<Rightarrow> Raised e st | Inr r1 \<Rightarrow> Done (log_write Created f (st\<lparr>root := r1\<rparr>)))"
  "write_log ''copy'' f st =
     (case open_append (log_file st) (clock st) (root st) of
        Inl e \<Rightarrow> Raised e st | Inr r1 \<Rightarrow> Done (log_write Copied f (st\<lparr>root := r1\<rparr>)))"
  "write_log ''delete'' f st =
     (case open_append (log_file st) (clock st) (root st) of
        Inl e \<Rightarrow> Raised e st | Inr r1 \<Rightarrow> Done (log_write Deleted f (st\<lparr>root := r1\<rparr>)))"
  by (simp_all add: write_log_def split: sum.splits)

text \<open>An increment followed by the call of \<^verbatim>\<open>write_log\<close> with the same kind.\<close>

lemma tallied_created:
  "tallied st (write_log ''create'' f (st\<lparr>root := r, file_created_count := file_created_count st + 1\<rparr>))"
proof (cases "open_append (log_file st) (clock st) r")
  case (Inl e)
  have "tally [(Created, f)] st (st\<lparr>root := r, file_created_count := file_created_count st + 1\<rparr>)"
    unfolding tally_def by (intro exI[of _ "[]"]) (simp add: count_lines_def)
  then have "\<exists>p. length p \<le> 1
      \<and> tally p st (st\<lparr>root := r, file_created_count := file_created_count st + 1\<rparr>)"
    by (intro exI[of _ "[(Created, f)]"]) simp
  with Inl show ?thesis by (simp add: write_log_kinds tallied_def)
next
  case (Inr r1)
  have "tally [] st (log_write Created f
          (st\<lparr>root := r, file_created_count := file_created_count st + 1, root := r1\<rparr>))"
    unfolding tally_def by (intro exI[of _ "[(Created, f)]"]) (simp add: log_write_def count_lines_def)
  with Inr show ?thesis by (simp add: write_log_kinds tallied_def)
qed

lemma tallied_copied:
  "tallied st (write_log ''copy'' f (st\<lparr>root := r, file_copied_count := file_copied_count st + 1\<rparr>))"
proof (cases "open_append (log_file st) (clock st) r")
  case (Inl e)
  have "tally [(Copied, f)] st (st\<lparr>root := r, file_copied_count := file_copied_count st + 1\<rparr>)"
    unfolding tally_def by (intro exI[of _ "[]"]) (simp add: count_lines_def)
  then have "\<exists>p. length p \<le> 1
      \<and> tally p st (st\<lparr>root := r, file_copied_count := file_copied_count st + 1\<rparr>)"
    by (intro exI[of _ "[(Copied, f)]"]) simp
  with Inl show ?thesis by (simp add: write_log_kinds tallied_def)
next
  case (Inr r1)
  have "tally [] st (log_write Copied f
          (st\<lparr>root := r, file_copied_count := file_copied_count st + 1, root := r1\<rparr>))"
    unfolding tally_def by (intro exI[of _ "[(Copied, f)]"]) (simp add: log_write_def count_lines_def)
  with Inr show ?thesis by (simp add: write_log_kinds tallied_def)
qed

lemma tallied_deleted:
  "tallied st (write_log ''delete'' f (st\<lparr>root := r, file_deleted_count := file_deleted_count st + 1\<rparr>))"
proof (cases "open_append (log_file st) (clock st) r")
  case (Inl e)
  have "tally [(Deleted, f)] st (st\<lparr>root := r, file_deleted_count := file_deleted_count st + 1\<rparr>)"
    unfolding tally_def by (intro exI[of _ "[]"]) (simp add: count_lines_def)
  then have "\<exists>p. length p \<le> 1
      \<and> tally p st (st\<lparr>root := r, file_deleted_count := file_deleted_count st + 1\<rparr>)"
    by (intro exI[of _ "[(Deleted, f)]"]) simp
  with Inl show ?thesis by (simp add: write_log_kinds tallied_def)
next
  case (Inr r1)
  have "tally [] st (log_write Deleted f
          (st\<lparr>root := r, file_deleted_count := file_deleted_count st + 1, root := r1\<rparr>))"
    unfolding tally_def by (intro exI[of _ "[(Deleted, f)]"]) (simp add: log_write_def count_lines_def)
  with Inr show ?thesis by (simp add: write_log_kinds tallied_def)
qed

lemma root_update_same [simp]: "st\<lparr>root := root st\<rparr> = st"
  by simp

lemma tallied_log_created: "tallied st (log_created srcpath files st)"
proof (induction files arbitrary: st)
  case Nil
  show ?case by simp
next
  case (Cons f files)
  let ?r = "write_log ''create'' (srcpath @ [f]) (st\<lparr>file_created_count := file_created_count st + 1\<rparr>)"
  have eq: "log_created srcpath (f # files) st = and_then ?r (log_created srcpath files)"
    by (cases ?r) (simp_all add: and_then_def)
  have "tallied st ?r" using tallied_created[of st "srcpath @ [f]" "root st"] by simp
  then show ?case unfolding eq by (rule tallied_and_then) (rule Cons.IH)
qed

lemma tallied_log_copied: "tallied st (log_copied srcpath files st)"
proof (induction files arbitrary: st)
  case Nil
  show ?case by simp
next
  case (Cons f files)
  let ?r = "write_log ''copy'' (srcpath @ [f]) (st\<lparr>file_copied_count := file_copied_count st + 1\<rparr>)"
  have eq: "log_copied srcpath (f # files) st = and_then ?r (log_copied srcpath files)"
    by (cases ?r) (simp_all add: and_then_def)
  have "tallied st ?r" using tallied_copied[of st "srcpath @ [f]" "root st"] by simp
  then show ?case unfolding eq by (rule tallied_and_then) (rule Cons.IH)
qed

lemma tallied_log_deleted: "tallied st (log_deleted srcpath files st)"
proof (induction files arbitrary: st)
  case Nil
  show ?case by simp
next
  case (Cons f files)
  let ?r = "write_log ''delete'' (srcpath @ [f]) (st\<lparr>file_deleted_count := file_deleted_count st + 1\<rparr>)"
  have eq: "log_deleted srcpath (f # files) st = and_then ?r (log_deleted srcpath files)"
    by (cases ?r) (simp_all add: and_then_def)
  have "tallied st ?r" using tallied_deleted[of st "srcpath @ [f]" "root st"] by simp
  then show ?case unfolding eq by (rule tallied_and_then) (rule Cons.IH)
qed

lemma tallied_root: "tallied (st\<lparr>root := r\<rparr>) x = tallied st x"
  by (rule tallied_fields) simp_all

lemma tallied_cache: "tallied (st\<lparr>cache := c\<rparr>) x = tallied st x"
  by (rule tallied_fields) simp_all

lemma tallied_copy_files_one: "tallied st (copy_files [nm] src dest new st)"
proof (cases "os_path_isdir (src @ [nm]) (root st)")
  case True
  show ?thesis
  proof (cases "shutil_copytree (src @ [nm]) (dest @ [nm]) (root st)")
    case (Inl e)
    have "\<exists>p. length p \<le> 1 \<and> tally p st st" by (intro exI[of _ "[]"]) (simp add: tally_refl)
    with True Inl show ?thesis by (simp add: Let_def tallied_def)
  next
    case (Inr root1)
    show ?thesis
    proof (cases "os_listdir (src @ [nm]) root1")
      case (Inl e)
      have "tally [] st (st\<lparr>root := root1\<rparr>)" unfolding tally_def by (intro exI[of _ "[]"]) simp
      then have "\<exists>p. length p \<le> 1 \<and> tally p st (st\<lparr>root := root1\<rparr>)"
        by (intro exI[of _ "[]"]) simp
      with True Inr Inl show ?thesis by (simp add: Let_def tallied_def)
    next
      case l: (Inr files)
      let ?r = "if new then log_created (src @ [nm]) files (st\<lparr>root := root1\<rparr>)
                else log_copied (src @ [nm]) files (st\<lparr>root := root1\<rparr>)"
      have "tallied (st\<lparr>root := root1\<rparr>) ?r" by (simp add: tallied_log_created tallied_log_copied)
      then have t: "tallied st ?r" by (simp only: tallied_root)
      have "copy_files [nm] src dest new st = ?r"
        using True Inr l by (cases ?r) (simp_all add: Let_def)
      with t show ?thesis by simp
    qed
  qed
next
  case False
  show ?thesis
  proof (cases "shutil_copy2 (src @ [nm]) dest (root st)")
    case (Inl e)
    have "\<exists>p. length p \<le> 1 \<and> tally p st st" by (intro exI[of _ "[]"]) (simp add: tally_refl)
    with False Inl show ?thesis by (simp add: Let_def tallied_def)
  next
    case (Inr root1)
    let ?r = "if new
              then write_log ''create'' (src @ [nm])
                     (st\<lparr>root := root1, file_created_count := file_created_count st + 1\<rparr>)
              else write_log ''copy'' (src @ [nm])
                     (st\<lparr>root := root1, file_copied_count := file_copied_count st + 1\<rparr>)"
    have t: "tallied st ?r"
      by (cases new) (simp_all only: if_True if_False tallied_created tallied_copied)
    have "copy_files [nm] src dest new st = ?r"
      using False Inr by (cases ?r) (simp_all add: Let_def)
    with t show ?thesis by simp
  qed
qed

lemma tallied_copy_files: "tallied st (copy_files ns src dest new st)"
proof (induction ns arbitrary: st)
  case Nil
  show ?case by simp
next
  case (Cons nm ns)
  have eq: "copy_files (nm # ns) src dest new st =
      and_then (copy_files [nm] src dest new st) (copy_files ns src dest new)"
    by (rule copy_files_Cons)
  show ?case unfolding eq by (rule tallied_and_then[OF tallied_copy_files_one]) (rule Cons.IH)
qed

lemma tallied_delete_files_one: "tallied st (delete_files [nm] folder st)"
proof (cases "os_path_isdir (folder @ [nm]) (root st)")
  case True
  show ?thesis
  proof (cases "os_listdir (folder @ [nm]) (root st)")
    case (Inl e)
    have "\<exists>p. length p \<le> 1 \<and> tally p st st" by (intro exI[of _ "[]"]) (simp add: tally_refl)
    with True Inl show ?thesis by (simp add: Let_def tallied_def)
  next
    case (Inr files)
    let ?f = "\<lambda>st1. case shutil_rmtree (folder @ [nm]) (root st1) of
                      Inl e \<Rightarrow> Raised e st1 | Inr root1 \<Rightarrow> Done (st1\<lparr>root := root1\<rparr>)"
    have eq: "delete_files [nm] folder st = and_then (log_deleted (folder @ [nm]) files st) ?f"
      using True Inr
      by (cases "log_deleted (folder @ [nm]) files st") (simp_all add: Let_def and_then_def split: sum.splits)
    have step: "tallied s (?f s)" for s
    proof (cases "shutil_rmtree (folder @ [nm]) (root s)")
      case (Inl e)
      have "\<exists>p. length p \<le> 1 \<and> tally p s s" by (intro exI[of _ "[]"]) (simp add: tally_refl)
      with Inl show ?thesis by (simp add: tallied_def)
    next
      case (Inr root1)
      have "tally [] s (s\<lparr>root := root1\<rparr>)" unfolding tally_def by (intro exI[of _ "[]"]) simp
      with Inr show ?thesis by (simp add: tallied_def)
    qed
    show ?thesis unfolding eq by (rule tallied_and_then[OF tallied_log_deleted]) (rule step)
  qed
next
  case False
  show ?thesis
  proof (cases "os_remove (folder @ [nm]) (root st)")
    case (Inl e)
    have "\<exists>p. length p \<le> 1 \<and> tally p st st" by (intro exI[of _ "[]"]) (simp add: tally_refl)
    with False Inl show ?thesis by (simp add: Let_def tallied_def)
  next
    case (Inr root1)
    let ?r = "write_log ''delete'' (folder @ [nm])
                (st\<lparr>root := root1, file_deleted_count := file_deleted_count st + 1\<rparr>)"
    have t: "tallied st ?r" by (rule tallied_deleted)
    have "delete_files [nm] folder st = ?r"
      using False Inr by (cases ?r) (simp_all add: Let_def)
    with t show ?thesis by simp
  qed
qed

lemma tallied_delete_files: "tallied st (delete_files ns folder st)"
proof (induction ns arbitrary: st)
  case Nil
  show ?case by simp
next
  case (Cons nm ns)
  have eq: "delete_files (nm # ns) folder st =
      and_then (delete_files [nm] folder st) (delete_files ns folder)"
    by (rule delete_files_Cons)
  show ?case unfolding eq by (rule tallied_and_then[OF tallied_delete_files_one]) (rule Cons.IH)
qed

lemma tallied_for_each:
  "(\<And>x s. x \<in> set xs \<Longrightarrow> tallied s (body x s)) \<Longrightarrow> tallied st (for_each body xs st)"
proof (induction xs arbitrary: st)
  case Nil
  show ?case by simp
next
  case (Cons x xs)
  have eq: "for_each body (x # xs) st = and_then (body x st) (for_each body xs)"
    by (rule for_each_Cons)
  show ?case unfolding eq
    by (rule tallied_and_then) (use Cons in auto)
qed

lemma tallied_compare_folders: "tallied st (compare_folders depth src repl st)"
proof (induction depth arbitrary: src repl st)
  case 0
  show ?case by (simp add: tallied_def)
next
  case (Suc k)
  show ?case
  proof (cases "phase0 src repl (root st)")
    case (Inl e)
    have "\<exists>p. length p \<le> 1 \<and> tally p st st" by (intro exI[of _ "[]"]) (simp add: tally_refl)
    with Inl show ?thesis by (simp add: tallied_def)
  next
    case (Inr lr)
    obtain ll rl where lr: "lr = (ll, rl)" by (cases lr)
    show ?thesis
      unfolding compare_folders_steps Inr lr sum.case prod.case
    proof (intro tallied_and_then)
      show "tallied st (for_each (\<lambda>folder. compare_folders k (src @ [folder]) (repl @ [folder]))
              (common_dirs (phase2 src repl (common (phase1 ll rl)) (root st))) st)"
        by (rule tallied_for_each) (rule Suc.IH)
    next
      fix s show "tallied s (copy_files (left_only (phase1 ll rl)) src repl True s)"
        by (rule tallied_copy_files)
    next
      fix s show "tallied s (delete_files (right_only (phase1 ll rl)) repl s)"
        by (rule tallied_delete_files)
    next
      fix s c ns show "tallied s (copy_files ns src repl False (s\<lparr>cache := c\<rparr>))"
        using tallied_copy_files[of "s\<lparr>cache := c\<rparr>" ns src repl False]
        by (simp only: tallied_cache)
    qed
  qed
qed

lemma example_run: "compare_folders 2 [''s''] [''r''] example_state = Done example_final"
  by code_simp

text \<open>
  C5. At the end of a run that returns, the records it added to the log and the
  amounts by which it raised the counters agree verb by verb. The Driver starts every
  run with the counters at zero, so each counter it prints is the number of records of
  its kind written during the run. A run that an exception ends is at most one record
  behind: \<^verbatim>\<open>copy_files\<close> and \<^verbatim>\<open>delete_files\<close> raise the counter before they call
  \<^verbatim>\<open>write_log\<close>, so when opening the log file fails, the record \<open>pending\<close> is counted
  and not written.
\<close>

theorem counters_match_log:
  assumes "final (compare_folders depth src repl st) = Some st'"
  shows "\<exists>new pending. log_lines st' = log_lines st @ new
       \<and> file_created_count st' = file_created_count st + count_lines Created (new @ pending)
       \<and> file_copied_count st' = file_copied_count st + count_lines Copied (new @ pending)
       \<and> file_deleted_count st' = file_deleted_count st + count_lines Deleted (new @ pending)
       \<and> length pending \<le> 1
       \<and> (compare_folders depth src repl st = Done st' \<longrightarrow> pending = [])"
proof (cases "compare_folders depth src repl st")
  case (Done s)
  with assms have s: "s = st'" by simp
  from tallied_compare_folders[of st depth src repl] Done s have "tally [] st st'"
    by (simp add: tallied_def)
  then obtain new where "log_lines st' = log_lines st @ new
       \<and> file_created_count st' = file_created_count st + count_lines Created (new @ [])
       \<and> file_copied_count st' = file_copied_count st + count_lines Copied (new @ [])
       \<and> file_deleted_count st' = file_deleted_count st + count_lines Deleted (new @ [])"
    unfolding tally_def by blast
  then show ?thesis by (intro exI[of _ new] exI[of _ "[]"]) simp
next
  case (Raised e s)
  with assms have s: "s = st'" by simp
  from tallied_compare_folders[of st depth src repl] Raised s obtain pending where
    p: "length pending \<le> 1" and "tally pending st st'"
    by (auto simp: tallied_def)
  then obtain new where "log_lines st' = log_lines st @ new
       \<and> file_created_count st' = file_created_count st + count_lines Created (new @ pending)
       \<and> file_copied_count st' = file_copied_count st + count_lines Copied (new @ pending)
       \<and> file_deleted_count st' = file_deleted_count st + count_lines Deleted (new @ pending)"
    unfolding tally_def by blast
  with p Raised show ?thesis by (intro exI[of _ new] exI[of _ pending]) simp
next
  case OutOfFuel
  with assms show ?thesis by simp
qed

text \<open>The example run writes one record of each kind and ends with every counter at one.\<close>

theorem counters_match_log_witness:
  "final (compare_folders 2 [''s''] [''r''] example_state) = Some example_final
   \<and> (\<exists>new pending. log_lines example_final = log_lines example_state @ new
       \<and> file_created_count example_final
           = file_created_count example_state + count_lines Created (new @ pending)
       \<and> file_copied_count example_final
           = file_copied_count example_state + count_lines Copied (new @ pending)
       \<and> file_deleted_count example_final
           = file_deleted_count example_state + count_lines Deleted (new @ pending)
       \<and> length pending \<le> 1
       \<and> (compare_folders 2 [''s''] [''r''] example_state = Done example_final \<longrightarrow> pending = []))
   \<and> log_lines example_state = [] \<and> file_created_count example_state = 0
   \<and> file_created_count example_final = 1"
proof -
  have run: "final (compare_folders 2 [''s''] [''r''] example_state) = Some example_final"
    by (simp only: example_run final.simps)
  have "log_lines example_state = [] \<and> file_created_count example_state = 0
   \<and> file_created_count example_final = 1"
    by (simp add: example_state_def example_final_def fresh_state_def)
  with counters_match_log[OF run] run show ?thesis by blast
qed

text \<open>
  With \<^verbatim>\<open>--log_file\<close> naming a directory the first call of \<^verbatim>\<open>write_log\<close> raises:
  the file \<open>sub\<close> has been copied and counted, and no record is written.
\<close>

lemma counter_ahead_of_log:
  "compare_folders 2 [''s''] [''r''] (fresh_state example_root [''r''] 100) =
     Raised IsADirectoryError
       \<lparr>root = Dir [(''s'', Dir [(''a.txt'', File ''X'' 1), (''sub'', Dir [(''b.txt'', File ''Y'' 2)])]),
                   (''r'', Dir [(''a.txt'', File ''old'' 0), (''stale.txt'', File ''Z'' 3),
                                (''sub'', Dir [(''b.txt'', File ''Y'' 2)])])],
        clock = 100, cache = [], log_file = [''r''], log_lines = [],
        file_created_count = 1, file_copied_count = 0, file_deleted_count = 0\<rparr>"
  by code_simp

section \<open>What a level keeps\<close>










section \<open>A name of two kinds\<close>

lemma mismatch_run: "compare_folders 1 [''s''] [''r''] mismatch_state = Done mismatch_final"
  by code_simp





section \<open>The source tree\<close>

lemma inside_run: "compare_folders 1 [''s''] [''s'', ''r''] inside_state = Done inside_final"
  by code_simp

lemma example_logged_run:
  "compare_folders 2 [''s''] [''r''] (fresh_state example_root [''s'', ''log.txt''] 100)
     = Done example_logged_final"
  by code_simp

lemma below_apart:
  assumes "w \<in> below repl" "\<not> prefix src repl" "\<not> prefix repl src"
  shows "\<not> prefix w src \<and> \<not> prefix src w"
proof -
  from assms(1) have rw: "prefix repl w" by (simp add: below_def strict_prefix_def)
  have "\<not> prefix w src" using rw assms(3) by (meson prefix_order.trans)
  moreover have "\<not> prefix src w" using rw assms(2,3) prefix_same_cases by blast
  ultimately show ?thesis by simp
qed

text \<open>
  C9 (as amended). Every store and every removal of a run, returning or raising, has its
  target strictly inside the replica directory; the one other write is the record that
  \<^verbatim>\<open>write_log\<close> adds to the log file. When neither root lies inside the other (and
  they are not the same directory) and the log file does not lie inside the source, the
  source tree is after the run what it was before.
\<close>

theorem source_untouched:
  assumes "final (compare_folders depth src repl st) = Some st'"
  shows "effects (below repl) (below repl) st st'
       \<and> (\<not> prefix src repl \<and> \<not> prefix repl src \<and> \<not> prefix src (log_file st) \<longrightarrow>
            fs_get src (root st') = fs_get src (root st))"
proof -
  have eff: "effects (below repl) (below repl) st st'"
    by (rule compare_folders_effects_below[OF assms])
  moreover have "fs_get src (root st') = fs_get src (root st)"
    if "\<not> prefix src repl" "\<not> prefix repl src" "\<not> prefix src (log_file st)"
    by (rule effects_frame[OF eff _ that(3)]) (use that below_apart in auto)
  ultimately show ?thesis by simp
qed

text \<open>The example run, with the source \<open>s\<close>, the replica \<open>r\<close> and the log file side
  by side.\<close>

theorem source_untouched_witness:
  "final (compare_folders 2 [''s''] [''r''] example_state) = Some example_final
   \<and> \<not> prefix [''s''] [''r''] \<and> \<not> prefix [''r''] [''s'']
   \<and> \<not> prefix [''s''] (log_file example_state)
   \<and> effects (below [''r'']) (below [''r'']) example_state example_final
   \<and> fs_get [''s''] (root example_final) = fs_get [''s''] (root example_state)"
proof -
  have f: "final (compare_folders 2 [''s''] [''r''] example_state) = Some example_final"
    by (simp only: example_run final.simps)
  have l: "\<not> prefix [''s''] (log_file example_state)"
    by (simp add: example_state_def fresh_state_def)
  from source_untouched[OF f] f l show ?thesis by simp
qed

text \<open>
  C9 as stated fails when the replica is a directory of the source: the run of
  \<^verbatim>\<open>sync_folders.py s s/r\<close> copies \<open>a.txt\<close> and \<open>r\<close> itself into \<open>s/r\<close>, so the
  source tree \<open>s\<close> is not what it was.
\<close>

theorem source_untouched_counterexample:
  "compare_folders 1 [''s''] [''s'', ''r''] inside_state = Done inside_final
   \<and> fs_get [''s''] (root inside_final) \<noteq> fs_get [''s''] (root inside_state)"
proof -
  have "fs_get [''s''] (root inside_final) \<noteq> fs_get [''s''] (root inside_state)"
    by code_simp
  with inside_run show ?thesis by simp
qed

text \<open>
  It fails as well with the two folders side by side when \<^verbatim>\<open>--log_file\<close> names a
  file in the source folder: the records of the run are written into the source.
\<close>

lemma source_gains_log_file:
  "compare_folders 2 [''s''] [''r''] (fresh_state example_root [''s'', ''log.txt''] 100)
     = Done example_logged_final
   \<and> fs_get [''s'', ''log.txt''] example_root = None
   \<and> fs_get [''s'', ''log.txt''] (root example_logged_final)
       = Some (File (log_text Created [''s'', ''sub'', ''b.txt'']
                     @ log_text Deleted [''r'', ''stale.txt'']
                     @ log_text Copied [''s'', ''a.txt'']) 102)"
proof -
  have "fs_get [''s'', ''log.txt''] example_root = None"
    "fs_get [''s'', ''log.txt''] (root example_logged_final)
       = Some (File (log_text Created [''s'', ''sub'', ''b.txt'']
                     @ log_text Deleted [''r'', ''stale.txt'']
                     @ log_text Copied [''s'', ''a.txt'']) 102)"
    by code_simp+
  with example_logged_run show ?thesis by (simp only: simp_thms)
qed

section \<open>Errors\<close>






section \<open>Mirror convergence\<close>

text \<open>
  C1. \<^verbatim>\<open>compare_folders\<close> is to modify the replica folder to match the source
  folder. It does not when a name is a directory in the source and a file in the
  replica: \<^verbatim>\<open>dircmp\<close> puts the name in \<^verbatim>\<open>common_funny\<close>, which
  \<^verbatim>\<open>compare_folders\<close> never reads. The run on the source \<open>s\<close> with the directory
  \<open>x\<close> and the file \<open>new\<close> and the replica \<open>r\<close> with the file \<open>x\<close> returns,
  having copied \<open>new\<close>; the replica still holds the file \<open>x\<close> where the source holds
  the directory, so the replica does not mirror the source.
\<close>

theorem mirror_not_reached:
  "compare_folders 1 [''s''] [''r''] mismatch_state = Done mismatch_final
   \<and> common_funny (phase2 [''s''] [''r''] [''x''] (root mismatch_state)) = [''x'']
   \<and> fs_get [''s'', ''x''] (root mismatch_final) = Some (Dir [(''f'', File ''1'' 1)])
   \<and> fs_get [''r'', ''x''] (root mismatch_final) = Some (File ''old'' 2)
   \<and> \<not> mirrors [''s''] [''r''] (root mismatch_final)"
proof -
  have a: "common_funny (phase2 [''s''] [''r''] [''x''] (root mismatch_state)) = [''x'']"
    "fs_get [''s'', ''x''] (root mismatch_final) = Some (Dir [(''f'', File ''1'' 1)])"
    "fs_get [''r'', ''x''] (root mismatch_final) = Some (File ''old'' 2)"
    by code_simp+
  have "shape (fs_get ([''r''] @ [''x'']) (root mismatch_final))
          \<noteq> shape (fs_get ([''s''] @ [''x'']) (root mismatch_final))"
    using a(2,3) by (simp add: shape_def)
  then have "\<not> mirrors [''s''] [''r''] (root mismatch_final)"
    unfolding mirrors_def by blast
  with mismatch_run a show ?thesis by (simp only: simp_thms)
qed

end
